theory Spec2Isabelle
  imports
    Complex_Main
    "HOL-Library.Multiset"
    "HOL-Library.Sublist"
    "HOL-Library.List_Lexorder"
    "HOL-Library.Char_ord"
    "HOL-Library.Log_Nat"
begin

section \<open>Domain model (lib/mockData.ts)\<close>

text \<open>
  A price, an amount or a measurement is carried as a rational: every finite double is
  one, and the comparison operators agree on them. Addition is the addition of the
  carrier; nothing proved below uses a law of addition, only that the same fold is
  evaluated twice. The numbers of the pagination, which the handler computes with, are
  modelled with their rounding further down.
\<close>

type_synonym number = rat

record CustomSize =
  chest :: number
  waist :: number
  hips :: number

record OrderItem =
  orderItemId :: string
  itemName :: string
  category :: string
  price :: number
  customSize :: CustomSize

record Order =
  orderId :: string
  orderDate :: string
  totalAmount :: number
  items :: "OrderItem list"

text \<open>
  The summary is the customer without its \<open>_orders\<close>; the customer extends it. The
  TypeScript union type of \<open>status\<close> is erased at run time, so the field is a string.
  \<open>lastOrderDate\<close> is \<open>string | null\<close>.
\<close>

record CustomerSummary =
  idC :: string
  name :: string
  email :: string
  status :: string
  revenue :: number
  createdAt :: string
  orderCount :: nat
  lastOrderDate :: "string option"

record Customer = CustomerSummary +
  orders :: "Order list"

text \<open>The module-level array \<open>mockCustomers\<close> is the state every operation threads.\<close>

type_synonym store = "Customer list"

definition getCustomerSummary :: "Customer \<Rightarrow> CustomerSummary" where
  "getCustomerSummary customer = CustomerSummary.truncate customer"

section \<open>Request values\<close>

text \<open>
  A parsed JSON body. \<open>JUndefined\<close> is what reading a missing property gives. An object
  is its list of members in textual order; \<open>JSON.parse\<close> lets the last duplicate win.
\<close>

datatype json =
    JUndefined
  | JNull
  | JBool bool
  | JNum number
  | JStr string
  | JArr "json list"
  | JObj "(string \<times> json) list"

fun truthy :: "json \<Rightarrow> bool" where
  "truthy JUndefined = False"
| "truthy JNull = False"
| "truthy (JBool b) = b"
| "truthy (JNum n) = (n \<noteq> 0)"
| "truthy (JStr s) = (s \<noteq> [])"
| "truthy (JArr vs) = True"
| "truthy (JObj kvs) = True"

datatype jstype = TUndefined | TObject | TBoolean | TNumber | TString

fun typeof :: "json \<Rightarrow> jstype" where
  "typeof JUndefined = TUndefined"
| "typeof JNull = TObject"
| "typeof (JBool b) = TBoolean"
| "typeof (JNum n) = TNumber"
| "typeof (JStr s) = TString"
| "typeof (JArr vs) = TObject"
| "typeof (JObj kvs) = TObject"

text \<open>
  Property read \<open>v.k\<close> for the keys the handlers read (none of them is inherited from a
  prototype): a member of an object, \<open>undefined\<close> on any other value. On \<open>undefined\<close>
  and \<open>null\<close> the read throws a TypeError, which \<open>destructure\<close> reports as \<open>None\<close>.
\<close>

fun getMember :: "json \<Rightarrow> string \<Rightarrow> json" where
  "getMember (JObj kvs) k = (case map_of (rev kvs) k of None \<Rightarrow> JUndefined | Some v \<Rightarrow> v)"
| "getMember v k = JUndefined"

fun destructure :: "json \<Rightarrow> (string \<Rightarrow> json) option" where
  "destructure JUndefined = None"
| "destructure JNull = None"
| "destructure v = Some (getMember v)"

text \<open>\<open>c.id === v\<close> for a string \<open>c.id\<close>: strict equality holds for the same string only.\<close>

definition strictEq :: "string \<Rightarrow> json \<Rightarrow> bool" where
  "strictEq s v = (v = JStr s)"

text \<open>The TypeScript cast of a value already known to be a string.\<close>

fun asString :: "json \<Rightarrow> string" where
  "asString (JStr s) = s"
| "asString v = []"

text \<open>\<open>Array.prototype.includes\<close> on an array of strings.\<close>

definition arrayIncludes :: "string list \<Rightarrow> json \<Rightarrow> bool" where
  "arrayIncludes xs v = (\<exists>s \<in> set xs. strictEq s v)"

section \<open>Data store operations (lib/mockData.ts)\<close>

text \<open>
  \<open>Array.prototype.find\<close> is \<open>List.find\<close>: the first element that satisfies the test.
  The source then assigns to a field of the object found, which lives in the array;
  \<open>mutateFirst\<close> is that assignment, seen from the array.
\<close>

fun mutateFirst :: "('a \<Rightarrow> bool) \<Rightarrow> ('a \<Rightarrow> 'a) \<Rightarrow> 'a list \<Rightarrow> 'a list" where
  "mutateFirst P f [] = []"
| "mutateFirst P f (x # xs) = (if P x then f x # xs else x # mutateFirst P f xs)"

definition updateCustomerStatus :: "json \<Rightarrow> json \<Rightarrow> store \<Rightarrow> bool \<times> store" where
  "updateCustomerStatus customerId newStatus mockCustomers =
     (case find (\<lambda>c. strictEq (idC c) customerId) mockCustomers of
        Some customer \<Rightarrow>
          (True, mutateFirst (\<lambda>c. strictEq (idC c) customerId)
                   (\<lambda>c. c\<lparr>status := asString newStatus\<rparr>) mockCustomers)
      | None \<Rightarrow> (False, mockCustomers))"

section \<open>Strings\<close>

text \<open>
  Strings are lists of 8-bit characters, so the model covers ASCII text, where
  \<open>toLowerCase\<close> maps \<open>A\<close>..\<open>Z\<close> to \<open>a\<close>..\<open>z\<close> character by character and
  \<open>length\<close> counts what JavaScript counts. The relational operators on two strings
  compare code units lexicographically, which is the order of \<open>char list\<close>.
\<close>

definition toLowerChar :: "char \<Rightarrow> char" where
  "toLowerChar c =
     (if CHR ''A'' \<le> c \<and> c \<le> CHR ''Z'' then char_of (of_char c + (32::nat)) else c)"

definition toLowerCase :: "string \<Rightarrow> string" where
  "toLowerCase s = map toLowerChar s"

text \<open>\<open>String.prototype.includes\<close>: some position of \<open>s\<close> starts with \<open>p\<close>.\<close>

fun stringIncludes :: "string \<Rightarrow> string \<Rightarrow> bool" where
  "stringIncludes [] p = (p = [])"
| "stringIncludes (c # s) p = (prefix p (c # s) \<or> stringIncludes s p)"

section \<open>The numbers of the pagination\<close>

text \<open>
  The page number, the limit and the two slice indices are JavaScript numbers, that is,
  doubles. All of them are integers, \<open>NaN\<close> or an infinity, so a finite one is carried as
  the integer it is; the sign of a zero is not kept, no result depends on it.

  \<open>roundToDouble\<close> is the conversion of an exact integer to the nearest double, ties to
  the even mantissa: below \<open>2^53\<close> every integer is a double, above it the 53 leading bits
  are kept and the rest is rounded, and a result of \<open>2^1024\<close> or more is an infinity.
  The arithmetic operators round the exact result in the same way.
\<close>

datatype jsnum = NaN | PosInf | NegInf | Fin int

definition roundMagnitude :: "int \<Rightarrow> int" where
  "roundMagnitude m =
     (if m < 2 ^ 53 then m
      else
        (let e = nat (bitlen m - 53);
             q = m div 2 ^ e;
             r = m mod 2 ^ e;
             half = 2 ^ (e - 1);
             q' = (if half < r \<or> (r = half \<and> odd q) then q + 1 else q)
         in q' * 2 ^ e))"

definition roundToDouble :: "int \<Rightarrow> jsnum" where
  "roundToDouble x =
     (let m = roundMagnitude \<bar>x\<bar> in
      if 2 ^ 1024 \<le> m then (if x < 0 then NegInf else PosInf)
      else Fin (if x < 0 then - m else m))"

fun jsNeg :: "jsnum \<Rightarrow> jsnum" where
  "jsNeg NaN = NaN"
| "jsNeg PosInf = NegInf"
| "jsNeg NegInf = PosInf"
| "jsNeg (Fin x) = Fin (- x)"

fun jsAdd :: "jsnum \<Rightarrow> jsnum \<Rightarrow> jsnum" where
  "jsAdd NaN v = NaN"
| "jsAdd u NaN = NaN"
| "jsAdd PosInf NegInf = NaN"
| "jsAdd NegInf PosInf = NaN"
| "jsAdd PosInf v = PosInf"
| "jsAdd u PosInf = PosInf"
| "jsAdd NegInf v = NegInf"
| "jsAdd u NegInf = NegInf"
| "jsAdd (Fin x) (Fin y) = roundToDouble (x + y)"

definition jsSub :: "jsnum \<Rightarrow> jsnum \<Rightarrow> jsnum" where
  "jsSub u v = jsAdd u (jsNeg v)"

fun jsSign :: "jsnum \<Rightarrow> int" where
  "jsSign NaN = 0"
| "jsSign PosInf = 1"
| "jsSign NegInf = - 1"
| "jsSign (Fin x) = sgn x"

text \<open>An infinity times zero is \<open>NaN\<close>; otherwise an infinity keeps the product's sign.\<close>

fun jsMul :: "jsnum \<Rightarrow> jsnum \<Rightarrow> jsnum" where
  "jsMul NaN v = NaN"
| "jsMul u NaN = NaN"
| "jsMul (Fin x) (Fin y) = roundToDouble (x * y)"
| "jsMul u v =
     (if jsSign u * jsSign v = 0 then NaN
      else if 0 < jsSign u * jsSign v then PosInf else NegInf)"

text \<open>What \<open>res.json\<close> writes for a number: \<open>NaN\<close> and the infinities become \<open>null\<close>.\<close>

fun toJson :: "jsnum \<Rightarrow> int option" where
  "toJson (Fin x) = Some x"
| "toJson v = None"

text \<open>
  \<open>parseInt(s, 10)\<close>: leading white space is skipped, one sign is read, then the longest
  run of decimal digits. \<open>parseIntExact\<close> is the integer these digits denote (\<open>None\<close>
  when there is no digit); \<open>parseInt10\<close> is the number returned, \<open>NaN\<close> or that integer
  converted to a double. (ECMAScript lets an engine zero the digits after the twentieth
  before the conversion; that changes no result below: such a number stays above
  \<open>2^53\<close>, and 310 digits overflow either way.)
\<close>

definition isWhiteSpace :: "char \<Rightarrow> bool" where
  "isWhiteSpace c = (of_char c \<in> {9, 10, 11, 12, 13, 32 :: nat})"

definition isDigit :: "char \<Rightarrow> bool" where
  "isDigit c = (CHR ''0'' \<le> c \<and> c \<le> CHR ''9'')"

definition digitVal :: "char \<Rightarrow> int" where
  "digitVal c = int (of_char c) - 48"

definition parseIntExact :: "string \<Rightarrow> int option" where
  "parseIntExact s =
     (let t = dropWhile isWhiteSpace s;
          neg = (t \<noteq> [] \<and> hd t = CHR ''-'');
          u = (if t \<noteq> [] \<and> (hd t = CHR ''-'' \<or> hd t = CHR ''+'') then tl t else t);
          ds = takeWhile isDigit u
      in if ds = [] then None
         else Some ((if neg then - 1 else 1) * foldl (\<lambda>acc d. 10 * acc + digitVal d) 0 ds))"

definition parseInt10 :: "string \<Rightarrow> jsnum" where
  "parseInt10 s = (case parseIntExact s of None \<Rightarrow> NaN | Some z \<Rightarrow> roundToDouble z)"

section \<open>Arrays\<close>

text \<open>
  \<open>Array.prototype.sort\<close> belongs to the runtime. ECMAScript requires it to be stable,
  and for a consistent comparator the result is the one ordering of the elements that is
  sorted and keeps ties in input order. That ordering is computed here by insertion from
  the right: an element goes in front of the first element it does not exceed.
\<close>

fun insertBy :: "('a \<Rightarrow> 'a \<Rightarrow> int) \<Rightarrow> 'a \<Rightarrow> 'a list \<Rightarrow> 'a list" where
  "insertBy cmp x [] = [x]"
| "insertBy cmp x (y # ys) = (if cmp x y \<le> 0 then x # y # ys else y # insertBy cmp x ys)"

definition arraySort :: "('a \<Rightarrow> 'a \<Rightarrow> int) \<Rightarrow> 'a list \<Rightarrow> 'a list" where
  "arraySort cmp xs = foldr (insertBy cmp) xs []"

text \<open>
  \<open>Array.prototype.slice(start, end)\<close>: \<open>NaN\<close> counts as 0, a negative index counts
  from the end, and both indices are clamped to the length, which is below \<open>2^32\<close>.
\<close>

definition relativeIndex :: "nat \<Rightarrow> jsnum \<Rightarrow> nat" where
  "relativeIndex len i =
     (case i of
        NaN \<Rightarrow> 0
      | PosInf \<Rightarrow> len
      | NegInf \<Rightarrow> 0
      | Fin k \<Rightarrow> if k < 0 then nat (max (int len + k) 0) else min (nat k) len)"

definition slice :: "'a list \<Rightarrow> jsnum \<Rightarrow> jsnum \<Rightarrow> 'a list" where
  "slice xs start end =
     (let len = length xs; k = relativeIndex len start; final = relativeIndex len end
      in take (final - k) (drop k xs))"

section \<open>Generation and fallback creation (lib/mockData.ts)\<close>

text \<open>
  The generator draws from faker and reads the clock. The values drawn are inputs here:
  one record per order and per customer holds what the calls returned, the item list of
  an order being the result of \<open>generateOrderItems()\<close>. \<open>getTime\<close> stands for
  \<open>new Date(s).getTime()\<close>.
\<close>

record OrderDraw =
  drawOrderId :: string
  drawOrderDate :: string
  drawItems :: "OrderItem list"

record CustomerDraw =
  drawOrders :: "OrderDraw list"
  drawFullName :: string
  drawEmail :: string
  drawStatus :: string
  drawCreatedAt :: string

record RandomCustomerDraw = CustomerDraw +
  drawId :: string

definition generateOrders :: "(string \<Rightarrow> int) \<Rightarrow> OrderDraw list \<Rightarrow> Order list" where
  "generateOrders getTime draws =
     arraySort (\<lambda>a b. getTime (orderDate a) - getTime (orderDate b))
       (map (\<lambda>d. let items = drawItems d in
               \<lparr>orderId = drawOrderId d,
                orderDate = drawOrderDate d,
                totalAmount = foldl (\<lambda>sum item. sum + price item) 0 items,
                items = items\<rparr>) draws)"

text \<open>\<open>s || d\<close> for an optional string argument: \<open>undefined\<close> and \<open>''\<close> are falsy.\<close>

definition orElse :: "string option \<Rightarrow> string \<Rightarrow> string" where
  "orElse s d = (case s of None \<Rightarrow> d | Some t \<Rightarrow> if t \<noteq> [] then t else d)"

definition createCustomerWithId ::
  "(string \<Rightarrow> int) \<Rightarrow> CustomerDraw \<Rightarrow> string \<Rightarrow> string option \<Rightarrow> string option \<Rightarrow> Customer" where
  "createCustomerWithId getTime draw id' name' email' =
     (let orders = generateOrders getTime (drawOrders draw) in
      \<lparr>idC = id',
       name = orElse name' (drawFullName draw),
       email = orElse email' (drawEmail draw),
       status = drawStatus draw,
       revenue = foldl (\<lambda>sum order. sum + totalAmount order) 0 orders,
       createdAt = drawCreatedAt draw,
       orderCount = length orders,
       lastOrderDate =
         (if length orders > 0 then Some (orderDate (orders ! (length orders - 1))) else None),
       orders = orders\<rparr>)"

definition knownCustomerIds :: "string list" where
  "knownCustomerIds =
     [''a605ac61-d2cf-4051-b166-c4b4a0c45179'',
      ''924daa4b-39d8-4085-a29e-8332a1316633'',
      ''296879ac-1cd1-47c7-890e-5b5536787893'',
      ''b715bc72-e3de-4152-c277-d5c5b1d56280'']"

text \<open>The decimal text of \<open>index + 1\<close> in the template strings.\<close>

function showNat :: "nat \<Rightarrow> string" where
  "showNat n =
     (if n < 10 then [char_of (48 + n)] else showNat (n div 10) @ [char_of (48 + n mod 10)])"
  by pat_completeness auto
termination
  by (relation "measure (\<lambda>n. n)") auto

definition createKnownCustomers :: "(string \<Rightarrow> int) \<Rightarrow> CustomerDraw list \<Rightarrow> Customer list" where
  "createKnownCustomers getTime draws =
     map (\<lambda>((id', index), draw).
            createCustomerWithId getTime draw id'
              (Some (''Test User '' @ showNat (index + 1)))
              (Some (''test'' @ showNat (index + 1) @ ''@example.com'')))
       (zip (zip knownCustomerIds [0 ..< length knownCustomerIds]) draws)"

definition generateMockCustomers ::
  "(string \<Rightarrow> int) \<Rightarrow> CustomerDraw list \<Rightarrow> RandomCustomerDraw list \<Rightarrow> nat \<Rightarrow> Customer list" where
  "generateMockCustomers getTime knownDraws randomDraws count' =
     (let knownCustomers = createKnownCustomers getTime knownDraws;
          randomCustomers =
            map (\<lambda>d. let orders = generateOrders getTime (drawOrders d) in
                   \<lparr>idC = drawId d,
                    name = drawFullName d,
                    email = drawEmail d,
                    status = drawStatus d,
                    revenue = foldl (\<lambda>sum order. sum + totalAmount order) 0 orders,
                    createdAt = drawCreatedAt d,
                    orderCount = length orders,
                    lastOrderDate =
                      (if length orders > 0 then Some (orderDate (orders ! (length orders - 1)))
                       else None),
                    orders = orders\<rparr>)
              (take count' randomDraws)
      in knownCustomers @ randomCustomers)"

text \<open>
  \<open>getCustomerById\<close> is declared to return \<open>Customer | undefined\<close>. On a miss it creates
  the customer from the draw and pushes it onto \<open>mockCustomers\<close>.
\<close>

definition getCustomerById ::
  "(string \<Rightarrow> int) \<Rightarrow> CustomerDraw \<Rightarrow> string \<Rightarrow> store \<Rightarrow> Customer option \<times> store" where
  "getCustomerById getTime draw id' mockCustomers =
     (case find (\<lambda>c. idC c = id') mockCustomers of
        Some customer \<Rightarrow> (Some customer, mockCustomers)
      | None \<Rightarrow>
          (let customer = createCustomerWithId getTime draw id'
                            (Some ''Fallback Customer'') (Some ''fallback@example.com'')
           in (Some customer, mockCustomers @ [customer])))"

definition updateOrderItemSize ::
  "string \<Rightarrow> json \<Rightarrow> json \<Rightarrow> CustomSize \<Rightarrow> store \<Rightarrow> bool \<times> store" where
  "updateOrderItemSize customerId orderId' orderItemId' customSize' mockCustomers =
     (case find (\<lambda>c. idC c = customerId) mockCustomers of
        None \<Rightarrow> (False, mockCustomers)
      | Some customer \<Rightarrow>
          (case find (\<lambda>order. strictEq (orderId order) orderId') (orders customer) of
             None \<Rightarrow> (False, mockCustomers)
           | Some order \<Rightarrow>
               (case find (\<lambda>item. strictEq (orderItemId item) orderItemId') (items order) of
                  None \<Rightarrow> (False, mockCustomers)
                | Some orderItem \<Rightarrow>
                    (True,
                     mutateFirst (\<lambda>c. idC c = customerId)
                       (\<lambda>c. c\<lparr>orders :=
                          mutateFirst (\<lambda>order. strictEq (orderId order) orderId')
                            (\<lambda>order. order\<lparr>items :=
                               mutateFirst (\<lambda>item. strictEq (orderItemId item) orderItemId')
                                 (\<lambda>item. item\<lparr>customSize := customSize'\<rparr>)
                                 (items order)\<rparr>)
                            (orders c)\<rparr>)
                       mockCustomers))))"

section \<open>Query parameters\<close>

text \<open>A value of \<open>req.query\<close> is a string, or an array of strings for a repeated key.\<close>

datatype qval = QStr string | QArr "string list"

fun joinComma :: "string list \<Rightarrow> string" where
  "joinComma [] = []"
| "joinComma [s] = s"
| "joinComma (s # t # ss) = s @ '','' @ joinComma (t # ss)"

text \<open>The string \<open>parseInt\<close> sees: an array is converted by joining with commas.\<close>

fun qToString :: "qval \<Rightarrow> string" where
  "qToString (QStr s) = s"
| "qToString (QArr ss) = joinComma ss"

text \<open>Destructuring with a default: the default replaces \<open>undefined\<close> only.\<close>

definition queryOr :: "(string \<rightharpoonup> qval) \<Rightarrow> string \<Rightarrow> string \<Rightarrow> qval" where
  "queryOr q k d = (case q k of None \<Rightarrow> QStr d | Some v \<Rightarrow> v)"

section \<open>GET /api/customers (pages/api/customers.ts)\<close>

subsection \<open>Filter\<close>

definition matchesSearch :: "string \<Rightarrow> Customer \<Rightarrow> bool" where
  "matchesSearch searchLower customer =
     (stringIncludes (toLowerCase (name customer)) searchLower \<or>
      stringIncludes (toLowerCase (email customer)) searchLower)"

text \<open>\<open>search && typeof search === 'string'\<close>: an array is truthy but not a string.\<close>

definition filterStep :: "qval \<Rightarrow> Customer list \<Rightarrow> Customer list" where
  "filterStep search filteredCustomers =
     (case search of
        QStr s \<Rightarrow>
          if s \<noteq> [] then
            (let searchLower = toLowerCase s in filter (matchesSearch searchLower) filteredCustomers)
          else filteredCustomers
      | QArr ss \<Rightarrow> filteredCustomers)"

subsection \<open>Sort\<close>

text \<open>
  What \<open>a[sortBy]\<close> can be. \<open>PArr\<close> is the \<open>_orders\<close> array, carried as the string the
  relational operators convert it to (every element prints as \<open>[object Object]\<close>). Any
  other key gives \<open>PUndefined\<close>: an absent property, or an inherited one, which is the same
  object for every customer and so compares like \<open>undefined\<close> does, neither less nor greater.
\<close>

datatype propval = PUndefined | PNull | PStr string | PNum number | PArr string

definition getProp :: "Customer \<Rightarrow> string \<Rightarrow> propval" where
  "getProp c k =
     (if k = ''id'' then PStr (idC c)
      else if k = ''name'' then PStr (name c)
      else if k = ''email'' then PStr (email c)
      else if k = ''status'' then PStr (status c)
      else if k = ''revenue'' then PNum (revenue c)
      else if k = ''createdAt'' then PStr (createdAt c)
      else if k = ''orderCount'' then PNum (of_nat (orderCount c))
      else if k = ''lastOrderDate'' then
        (case lastOrderDate c of None \<Rightarrow> PNull | Some d \<Rightarrow> PStr d)
      else if k = ''_orders'' then
        PArr (joinComma (map (\<lambda>order. ''[object Object]'') (orders c)))
      else PUndefined)"

text \<open>
  The step "convert to comparable values": when \<open>aValue\<close> is a string, both values are
  lower-cased. \<open>bValue\<close> is then a string too: it is read from the same property, and
  \<open>null\<close> has been handled.
\<close>

fun toComparable :: "propval \<Rightarrow> propval \<Rightarrow> propval \<times> propval" where
  "toComparable (PStr s) (PStr t) = (PStr (toLowerCase s), PStr (toLowerCase t))"
| "toComparable aValue bValue = (aValue, bValue)"

text \<open>
  \<open>x < y\<close> on the two values of one property: strings and printed arrays by code units,
  numbers by value, \<open>undefined\<close> never (it converts to \<open>NaN\<close>). Two values of different
  kinds do not meet: both are read from the same property, and \<open>null\<close> is handled before.
\<close>

fun jsLess :: "propval \<Rightarrow> propval \<Rightarrow> bool" where
  "jsLess (PStr s) (PStr t) = (s < t)"
| "jsLess (PNum x) (PNum y) = (x < y)"
| "jsLess (PArr s) (PArr t) = (s < t)"
| "jsLess u v = False"

definition compareFn :: "string \<Rightarrow> qval \<Rightarrow> Customer \<Rightarrow> Customer \<Rightarrow> int" where
  "compareFn sortBy order a b =
     (let aValue = getProp a sortBy; bValue = getProp b sortBy in
      if aValue = PNull \<and> bValue = PNull then 0
      else if aValue = PNull then 1
      else if bValue = PNull then - 1
      else
        (case toComparable aValue bValue of
           (aValue, bValue) \<Rightarrow>
             (let result =
                    (if jsLess aValue bValue then - 1 else if jsLess bValue aValue then 1 else 0)
              in if order = QStr ''desc'' then - result else result)))"

definition sortStep :: "qval \<Rightarrow> qval \<Rightarrow> Customer list \<Rightarrow> Customer list" where
  "sortStep sortBy order filteredCustomers =
     (case sortBy of
        QStr k \<Rightarrow> arraySort (compareFn k order) filteredCustomers
      | QArr ks \<Rightarrow> filteredCustomers)"

subsection \<open>Paginate and respond\<close>

text \<open>
  The pagination numbers are recorded as \<open>res.json\<close> serialises them.
  \<open>Math.ceil(n / limitNum)\<close> divides the length of an array by a double: by an
  infinity the quotient is zero, by zero it is \<open>NaN\<close> or an infinity, and by any other
  limit the rounded quotient has the ceiling of the exact one, since the length is below
  \<open>2^32\<close>.
\<close>

record Pagination =
  currentPage :: "int option"
  totalPages :: "int option"
  totalItems :: nat
  itemsPerPage :: "int option"

datatype resBody =
    ErrorBody string
  | StatusUpdated string json json
  | CustomersPage "CustomerSummary list" Pagination
  | OrdersBody "Order list"
  | ItemUpdated string "OrderItem option"
  | EndText string

type_synonym response = "nat \<times> resBody"

definition totalPagesOf :: "nat \<Rightarrow> jsnum \<Rightarrow> int option" where
  "totalPagesOf n limitNum =
     (case limitNum of
        NaN \<Rightarrow> None
      | PosInf \<Rightarrow> Some 0
      | NegInf \<Rightarrow> Some 0
      | Fin l \<Rightarrow> if l = 0 then None else Some \<lceil>(of_nat n :: rat) / of_int l\<rceil>)"

definition handlerGetCustomers :: "(string \<rightharpoonup> qval) \<Rightarrow> store \<Rightarrow> response" where
  "handlerGetCustomers q mockCustomers =
     (let page = queryOr q ''page'' ''1'';
          limit = queryOr q ''limit'' ''10'';
          sortBy = queryOr q ''sortBy'' ''name'';
          order = queryOr q ''order'' ''asc'';
          search = queryOr q ''search'' [];
          filteredCustomers = filterStep search mockCustomers;
          filteredCustomers = sortStep sortBy order filteredCustomers;
          pageNum = parseInt10 (qToString page);
          limitNum = parseInt10 (qToString limit);
          startIndex = jsMul (jsSub pageNum (Fin 1)) limitNum;
          endIndex = jsAdd startIndex limitNum;
          paginatedCustomers = slice filteredCustomers startIndex endIndex;
          customerSummaries = map getCustomerSummary paginatedCustomers
      in (200, CustomersPage customerSummaries
                 \<lparr>currentPage = toJson pageNum,
                  totalPages = totalPagesOf (length filteredCustomers) limitNum,
                  totalItems = length filteredCustomers,
                  itemsPerPage = toJson limitNum\<rparr>))"

section \<open>PATCH /api/customers (pages/api/customers.ts)\<close>

definition validStatuses :: "string list" where
  "validStatuses = [''active'', ''churned'', ''prospect'']"

definition invalidStatusMessage :: string where
  "invalidStatusMessage = ''Invalid status. Must be one of: active, churned, prospect''"

text \<open>
  The PATCH branch of the handler. A throw inside the \<open>try\<close> (the destructuring of a
  body that is \<open>undefined\<close> or \<open>null\<close>) is caught and answered with 500.
\<close>

definition handlerPatchCustomers :: "json \<Rightarrow> store \<Rightarrow> response \<times> store" where
  "handlerPatchCustomers body mockCustomers =
     (case destructure body of
        None \<Rightarrow> ((500, ErrorBody ''Internal server error''), mockCustomers)
      | Some field \<Rightarrow>
          (let customerId = field ''customerId''; status = field ''status'' in
           if \<not> truthy customerId \<or> \<not> truthy status then
             ((400, ErrorBody ''Missing customerId or status''), mockCustomers)
           else if \<not> arrayIncludes validStatuses status then
             ((400, ErrorBody invalidStatusMessage), mockCustomers)
           else
             (case updateCustomerStatus customerId status mockCustomers of
                (True, mockCustomers') \<Rightarrow>
                  ((200, StatusUpdated ''Customer status updated successfully'' customerId status),
                   mockCustomers')
              | (False, mockCustomers') \<Rightarrow>
                  ((404, ErrorBody ''Customer not found''), mockCustomers'))))"

text \<open>The handler of the route: one branch per method, 405 for any other.\<close>

record Request =
  reqMethod :: string
  reqQuery :: "string \<rightharpoonup> qval"
  reqBody :: json

definition handlerCustomers :: "Request \<Rightarrow> store \<Rightarrow> response \<times> store" where
  "handlerCustomers req mockCustomers =
     (if reqMethod req = ''GET'' then
        (handlerGetCustomers (reqQuery req) mockCustomers, mockCustomers)
      else if reqMethod req = ''PATCH'' then
        handlerPatchCustomers (reqBody req) mockCustomers
      else ((405, EndText (''Method '' @ reqMethod req @ '' Not Allowed'')), mockCustomers))"

section \<open>/api/customers/[id]/orders (pages/api/customers/[id]/orders.ts)\<close>

text \<open>
  \<open>id\<close> is the dynamic segment of the route, a single string. The draw is what faker
  would return if the lookup has to create the customer.
\<close>

definition handlerGetOrders ::
  "(string \<Rightarrow> int) \<Rightarrow> CustomerDraw \<Rightarrow> string \<Rightarrow> store \<Rightarrow> response \<times> store" where
  "handlerGetOrders getTime draw id' mockCustomers =
     (case getCustomerById getTime draw id' mockCustomers of
        (None, mockCustomers') \<Rightarrow> ((404, ErrorBody ''Customer not found''), mockCustomers')
      | (Some customer, mockCustomers') \<Rightarrow> ((200, OrdersBody (orders customer)), mockCustomers'))"

text \<open>
  The object the body carries becomes the item's \<open>customSize\<close>; it is read here at the
  three fields of the interface, after the check that each is a number.
\<close>

fun numberOf :: "json \<Rightarrow> number" where
  "numberOf (JNum n) = n"
| "numberOf v = 0"

definition toCustomSize :: "json \<Rightarrow> CustomSize" where
  "toCustomSize v =
     \<lparr>chest = numberOf (getMember v ''chest''),
      waist = numberOf (getMember v ''waist''),
      hips = numberOf (getMember v ''hips'')\<rparr>"

definition handlerPatchOrders ::
  "(string \<Rightarrow> int) \<Rightarrow> CustomerDraw \<Rightarrow> string \<Rightarrow> json \<Rightarrow> store \<Rightarrow> response \<times> store" where
  "handlerPatchOrders getTime draw id' body mockCustomers =
     (case destructure body of
        None \<Rightarrow> ((500, ErrorBody ''Internal server error''), mockCustomers)
      | Some field \<Rightarrow>
          (let orderId' = field ''orderId'';
               orderItemId' = field ''orderItemId'';
               customSize' = field ''customSize''
           in
           if \<not> truthy orderId' \<or> \<not> truthy orderItemId' \<or> \<not> truthy customSize' then
             ((400, ErrorBody ''Missing required fields: orderId, orderItemId, customSize''),
              mockCustomers)
           else if typeof (getMember customSize' ''chest'') \<noteq> TNumber \<or>
                   typeof (getMember customSize' ''waist'') \<noteq> TNumber \<or>
                   typeof (getMember customSize' ''hips'') \<noteq> TNumber then
             ((400, ErrorBody
                 ''Invalid customSize format. Expected numbers for chest, waist, and hips.''),
              mockCustomers)
           else
             (case updateOrderItemSize id' orderId' orderItemId' (toCustomSize customSize')
                     mockCustomers of
                (True, mockCustomers') \<Rightarrow>
                  (case getCustomerById getTime draw id' mockCustomers' of
                     (updatedCustomer, mockCustomers'') \<Rightarrow>
                       (let updatedOrder =
                              Option.bind updatedCustomer
                                (\<lambda>c. find (\<lambda>order. strictEq (orderId order) orderId') (orders c));
                            updatedItem =
                              Option.bind updatedOrder
                                (\<lambda>order. find (\<lambda>item. strictEq (orderItemId item) orderItemId')
                                   (items order))
                        in ((200, ItemUpdated ''Order item updated successfully'' updatedItem),
                            mockCustomers'')))
              | (False, mockCustomers') \<Rightarrow>
                  ((404, ErrorBody ''Customer, order, or order item not found''),
                   mockCustomers'))))"

definition handlerOrders ::
  "(string \<Rightarrow> int) \<Rightarrow> CustomerDraw \<Rightarrow> string \<Rightarrow> Request \<Rightarrow> store \<Rightarrow> response \<times> store" where
  "handlerOrders getTime draw id' req mockCustomers =
     (if reqMethod req = ''GET'' then handlerGetOrders getTime draw id' mockCustomers
      else if reqMethod req = ''PATCH'' then
        handlerPatchOrders getTime draw id' (reqBody req) mockCustomers
      else ((405, EndText (''Method '' @ reqMethod req @ '' Not Allowed'')), mockCustomers))"

section \<open>The states the process can reach\<close>

text \<open>
  The store starts as \<open>generateMockCustomers(96)\<close> and changes only through the two
  route handlers, one request at a time.
\<close>

inductive reachable :: "(string \<Rightarrow> int) \<Rightarrow> store \<Rightarrow> bool" for getTime where
  start: "reachable getTime (generateMockCustomers getTime knownDraws randomDraws 96)"
| customersRequest:
    "reachable getTime mockCustomers \<Longrightarrow>
     reachable getTime (snd (handlerCustomers req mockCustomers))"
| ordersRequest:
    "reachable getTime mockCustomers \<Longrightarrow>
     reachable getTime (snd (handlerOrders getTime draw id' req mockCustomers))"

section \<open>Properties named by the specification\<close>

text \<open>
  The invariant of an order: its stored \<open>totalAmount\<close> is what the generator's fold gives
  on its present items. A store satisfies it when every order of every customer does.
\<close>

definition orderInv :: "Order \<Rightarrow> bool" where
  "orderInv order = (totalAmount order = foldl (\<lambda>sum item. sum + price item) 0 (items order))"

definition storeInv :: "store \<Rightarrow> bool" where
  "storeInv mockCustomers = list_all (\<lambda>c. list_all orderInv (orders c)) mockCustomers"

text \<open>
  \<open>pat\<close> occurs in \<open>text\<close> as a case-insensitive substring: at some offset the characters
  of \<open>pat\<close> match those of \<open>text\<close> one by one, up to the case of letters.
\<close>

definition ciContains :: "string \<Rightarrow> string \<Rightarrow> bool" where
  "ciContains text pat =
     (\<exists>i \<in> {.. length text}. i + length pat \<le> length text \<and>
        (\<forall>j \<in> {..< length pat}. toLowerChar (text ! (i + j)) = toLowerChar (pat ! j)))"

text \<open>
  The validity of a \<open>customSize\<close> payload in the words of the specification: \<open>chest\<close>,
  \<open>waist\<close> and \<open>hips\<close> are all present and non-negative finite numbers (every number
  of the model is finite).
\<close>

fun isNonNegativeNumber :: "json \<Rightarrow> bool" where
  "isNonNegativeNumber (JNum n) = (0 \<le> n)"
| "isNonNegativeNumber v = False"

definition specValidSize :: "json \<Rightarrow> bool" where
  "specValidSize size' =
     (isNonNegativeNumber (getMember size' ''chest'') \<and>
      isNonNegativeNumber (getMember size' ''waist'') \<and>
      isNonNegativeNumber (getMember size' ''hips''))"

text \<open>
  The comparison of two customers in the words of the specification, field by field: a
  string field is compared without regard to case, a number by value; an absent value
  comes after a present one whatever the direction is; the direction \<open>desc\<close> inverts the
  result of comparing two present values.
\<close>

definition threeWay :: "'a::linorder \<Rightarrow> 'a \<Rightarrow> int" where
  "threeWay x y = (if x < y then - 1 else if y < x then 1 else 0)"

definition direction :: "qval \<Rightarrow> int" where
  "direction sortDirection = (if sortDirection = QStr ''desc'' then - 1 else 1)"

definition specCompareStrings :: "qval \<Rightarrow> string option \<Rightarrow> string option \<Rightarrow> int" where
  "specCompareStrings sortDirection x y =
     (case (x, y) of
        (None, None) \<Rightarrow> 0
      | (None, Some t) \<Rightarrow> 1
      | (Some s, None) \<Rightarrow> - 1
      | (Some s, Some t) \<Rightarrow> direction sortDirection * threeWay (toLowerCase s) (toLowerCase t))"

definition specCompareNumbers :: "qval \<Rightarrow> 'a::linorder \<Rightarrow> 'a \<Rightarrow> int" where
  "specCompareNumbers sortDirection x y = direction sortDirection * threeWay x y"

definition summaryFields :: "string list" where
  "summaryFields =
     [''id'', ''name'', ''email'', ''status'', ''revenue'', ''createdAt'', ''orderCount'',
      ''lastOrderDate'']"

definition specCompare :: "string \<Rightarrow> qval \<Rightarrow> Customer \<Rightarrow> Customer \<Rightarrow> int" where
  "specCompare sortKey sortDirection a b =
     (if sortKey = ''id'' then specCompareStrings sortDirection (Some (idC a)) (Some (idC b))
      else if sortKey = ''name'' then
        specCompareStrings sortDirection (Some (name a)) (Some (name b))
      else if sortKey = ''email'' then
        specCompareStrings sortDirection (Some (email a)) (Some (email b))
      else if sortKey = ''status'' then
        specCompareStrings sortDirection (Some (status a)) (Some (status b))
      else if sortKey = ''revenue'' then specCompareNumbers sortDirection (revenue a) (revenue b)
      else if sortKey = ''createdAt'' then
        specCompareStrings sortDirection (Some (createdAt a)) (Some (createdAt b))
      else if sortKey = ''orderCount'' then
        specCompareNumbers sortDirection (orderCount a) (orderCount b)
      else if sortKey = ''lastOrderDate'' then
        specCompareStrings sortDirection (lastOrderDate a) (lastOrderDate b)
      else 0)"

section \<open>Notions used in the proofs about sorting\<close>

text \<open>
  A comparator is consistent when swapping its arguments negates the result and
  "not greater" is transitive. \<open>insertAfter\<close> inserts behind the last element that is
  not greater, the mirror image of \<open>insertBy\<close>.
\<close>

definition consistent :: "('a \<Rightarrow> 'a \<Rightarrow> int) \<Rightarrow> bool" where
  "consistent cmp =
     ((\<forall>x y. cmp x y = - cmp y x) \<and>
      (\<forall>x y z. cmp x y \<le> 0 \<and> cmp y z \<le> 0 \<longrightarrow> cmp x z \<le> 0))"

fun insertAfter :: "('a \<Rightarrow> 'a \<Rightarrow> int) \<Rightarrow> 'a \<Rightarrow> 'a list \<Rightarrow> 'a list" where
  "insertAfter cmp x [] = [x]"
| "insertAfter cmp x (y # ys) = (if cmp x y < 0 then x # y # ys else y # insertAfter cmp x ys)"

text \<open>
  For the arithmetic of the slice indices: the number \<open>v\<close> is the integer \<open>x\<close>, or both
  are at least \<open>T\<close> (and \<open>v\<close> may be infinite).
\<close>

definition near :: "int \<Rightarrow> int \<Rightarrow> jsnum \<Rightarrow> bool" where
  "near T x v = (v = Fin x \<or> (T \<le> x \<and> (v = PosInf \<or> (\<exists>k \<ge> T. v = Fin k))))"

section \<open>Sample data\<close>

text \<open>
  A store of three customers for the concrete instances below. \<open>cust1\<close> and \<open>cust3\<close>
  have the same name up to case; \<open>cust2\<close> and \<open>cust3\<close> have no order, so their
  \<open>lastOrderDate\<close> is \<open>null\<close>. The draws are what faker would return when a customer
  is created; the bodies and queries are requests.
\<close>

definition item1 :: OrderItem where
  "item1 = \<lparr>orderItemId = ''item-1'', itemName = ''Custom Wool Suit'', category = ''Suits'',
            price = 250, customSize = \<lparr>chest = 40, waist = 32, hips = 38\<rparr>\<rparr>"

definition item2 :: OrderItem where
  "item2 = \<lparr>orderItemId = ''item-2'', itemName = ''Evening Gown'', category = ''Dresses'',
            price = 351 / 2, customSize = \<lparr>chest = 36, waist = 30, hips = 40\<rparr>\<rparr>"

definition order1 :: Order where
  "order1 = \<lparr>orderId = ''order-1'', orderDate = ''2025-03-01'', totalAmount = 851 / 2,
             items = [item1, item2]\<rparr>"

definition cust1 :: Customer where
  "cust1 = \<lparr>idC = ''cust-1'', name = ''alice Smith'', email = ''alice@example.com'',
            status = ''active'', revenue = 851 / 2, createdAt = ''2024-06-01'',
            orderCount = 1, lastOrderDate = Some ''2025-03-01'', orders = [order1]\<rparr>"

definition cust2 :: Customer where
  "cust2 = \<lparr>idC = ''cust-2'', name = ''Bob Jones'', email = ''BOB@EXAMPLE.COM'',
            status = ''prospect'', revenue = 0, createdAt = ''2024-07-01'',
            orderCount = 0, lastOrderDate = None, orders = []\<rparr>"

definition cust3 :: Customer where
  "cust3 = \<lparr>idC = ''cust-3'', name = ''ALICE SMITH'', email = ''a.smith@example.com'',
            status = ''churned'', revenue = 0, createdAt = ''2024-08-01'',
            orderCount = 0, lastOrderDate = None, orders = []\<rparr>"

definition sampleStore :: store where
  "sampleStore = [cust1, cust2, cust3]"

definition sampleDraw :: CustomerDraw where
  "sampleDraw = \<lparr>drawOrders = [\<lparr>drawOrderId = ''order-9'', drawOrderDate = ''2025-05-05'',
                                 drawItems = [item1, item2]\<rparr>],
                 drawFullName = ''Dana Drew'', drawEmail = ''dana@example.com'',
                 drawStatus = ''active'', drawCreatedAt = ''2025-01-01''\<rparr>"

definition negativeSizeBody :: json where
  "negativeSizeBody =
     JObj [(''orderId'', JStr ''order-1''), (''orderItemId'', JStr ''item-1''),
           (''customSize'', JObj [(''chest'', JNum (- 1)), (''waist'', JNum 32), (''hips'', JNum 38)])]"

definition sampleQuery :: "string \<rightharpoonup> qval" where
  "sampleQuery = [''page'' \<mapsto> QStr ''2'', ''limit'' \<mapsto> QStr ''2'', ''sortBy'' \<mapsto> QStr ''name'',
                  ''order'' \<mapsto> QStr ''desc'']"

definition otherDraw :: CustomerDraw where
  "otherDraw = \<lparr>drawOrders = [], drawFullName = ''Eli Else'', drawEmail = ''eli@example.com'',
                drawStatus = ''churned'', drawCreatedAt = ''2025-02-02''\<rparr>"

definition newSize :: CustomSize where
  "newSize = \<lparr>chest = 41, waist = 33, hips = 39\<rparr>"

definition validSizeBody :: json where
  "validSizeBody =
     JObj [(''orderId'', JStr ''order-1''), (''orderItemId'', JStr ''item-2''),
           (''customSize'', JObj [(''chest'', JNum 41), (''waist'', JNum 33), (''hips'', JNum 39)])]"

definition stringSizeBody :: json where
  "stringSizeBody =
     JObj [(''orderId'', JStr ''order-1''), (''orderItemId'', JStr ''item-2''),
           (''customSize'', JObj [(''chest'', JStr ''41''), (''waist'', JNum 33), (''hips'', JNum 39)])]"

definition patchRequest :: "json \<Rightarrow> Request" where
  "patchRequest b = \<lparr>reqMethod = ''PATCH'', reqQuery = Map.empty, reqBody = b\<rparr>"

definition getRequest :: Request where
  "getRequest = \<lparr>reqMethod = ''GET'', reqQuery = Map.empty, reqBody = JUndefined\<rparr>"

definition invalidStatusBody :: "(string \<times> json) list" where
  "invalidStatusBody = [(''customerId'', JStr ''cust-1''), (''status'', JStr ''vip'')]"

definition unknownCustomerBody :: "(string \<times> json) list" where
  "unknownCustomerBody = [(''customerId'', JStr ''nobody''), (''status'', JStr ''active'')]"

definition emptyIdBody :: "(string \<times> json) list" where
  "emptyIdBody = [(''customerId'', JStr []), (''status'', JStr ''active'')]"

definition updatedStore :: store where
  "updatedStore =
     [cust1\<lparr>orders := [order1\<lparr>items := [item1, item2\<lparr>customSize := newSize\<rparr>]\<rparr>]\<rparr>, cust2, cust3]"

definition outOfRangeQuery :: "string \<rightharpoonup> qval" where
  "outOfRangeQuery = [''page'' \<mapsto> QStr ''9'', ''limit'' \<mapsto> QStr ''2'']"

definition hugeLimit :: string where
  "hugeLimit = replicate 310 (CHR ''9'')"

definition hugeLimitQuery :: "string \<rightharpoonup> qval" where
  "hugeLimitQuery = [''page'' \<mapsto> QStr ''1'', ''limit'' \<mapsto> QStr hugeLimit]"

definition roundedLimitQuery :: "string \<rightharpoonup> qval" where
  "roundedLimitQuery = [''page'' \<mapsto> QStr ''1'', ''limit'' \<mapsto> QStr ''9007199254740993'']"

section \<open>Facts about the store operations\<close>

lemma mutateFirst_nth:
  "find P xs = Some x \<Longrightarrow>
   \<exists>i < length xs. xs ! i = x \<and> P x \<and> (\<forall>j < i. \<not> P (xs ! j)) \<and> mutateFirst P f xs = xs[i := f x]"
proof (induction xs)
  case Nil
  then show ?case by simp
next
  case (Cons y ys)
  show ?case
  proof (cases "P y")
    case True
    with Cons.prems have "y = x" by simp
    with True show ?thesis by (intro exI[of _ 0]) simp
  next
    case False
    with Cons.prems have "find P ys = Some x" by simp
    from Cons.IH[OF this] obtain i where i: "i < length ys" "ys ! i = x" "P x"
      "\<forall>j < i. \<not> P (ys ! j)" "mutateFirst P f ys = ys[i := f x]" by blast
    have "\<forall>j < Suc i. \<not> P ((y # ys) ! j)"
      using False i(4) by (auto simp: less_Suc_eq_0_disj)
    with i False show ?thesis by (intro exI[of _ "Suc i"]) simp
  qed
qed

lemma mutateFirst_None: "find P xs = None \<Longrightarrow> mutateFirst P f xs = xs"
  by (induction xs) (auto split: if_splits)

lemma list_all_mutateFirst:
  "list_all Q xs \<Longrightarrow> (\<And>x. Q x \<Longrightarrow> Q (f x)) \<Longrightarrow> list_all Q (mutateFirst P f xs)"
  by (induction xs) auto

lemma map_price_mutateFirst:
  "map price (mutateFirst P (\<lambda>item. item\<lparr>customSize := s\<rparr>) its) = map price its"
  by (induction its) auto

lemma foldl_price: "foldl (\<lambda>sum item. sum + price item) z its = foldl (+) z (map price its)"
  by (simp add: foldl_map)

lemma orderInv_item_update:
  "orderInv order \<Longrightarrow>
   orderInv (order\<lparr>items := mutateFirst P (\<lambda>item. item\<lparr>customSize := s\<rparr>) (items order)\<rparr>)"
  by (simp add: orderInv_def foldl_price map_price_mutateFirst)

section \<open>Facts about sorting\<close>

lemma set_insertBy: "set (insertBy cmp x ys) = insert x (set ys)"
  by (induction ys) auto

lemma set_arraySort: "set (arraySort cmp xs) = set xs"
  by (induction xs) (auto simp: arraySort_def set_insertBy)

lemma mset_insertBy: "mset (insertBy cmp x ys) = add_mset x (mset ys)"
  by (induction ys) auto

lemma mset_arraySort: "mset (arraySort cmp xs) = mset xs"
  by (induction xs) (auto simp: arraySort_def mset_insertBy)

lemma length_arraySort: "length (arraySort cmp xs) = length xs"
  using mset_arraySort[of cmp xs] by (metis size_mset)

lemma set_sortStep: "set (sortStep sortBy order xs) = set xs"
  by (cases sortBy) (simp_all add: sortStep_def set_arraySort)

lemma length_sortStep: "length (sortStep sortBy order xs) = length xs"
  by (cases sortBy) (simp_all add: sortStep_def length_arraySort)

lemma consistent_antisym: "consistent cmp \<Longrightarrow> cmp x y = - cmp y x"
  unfolding consistent_def by blast

lemma consistent_trans: "consistent cmp \<Longrightarrow> cmp x y \<le> 0 \<Longrightarrow> cmp y z \<le> 0 \<Longrightarrow> cmp x z \<le> 0"
  unfolding consistent_def by blast

lemma consistent_total: "consistent cmp \<Longrightarrow> \<not> cmp x y \<le> 0 \<Longrightarrow> cmp y x \<le> 0"
  using consistent_antisym[of cmp x y] by simp

lemma sorted_insertBy:
  assumes "consistent cmp" and "sorted_wrt (\<lambda>a b. cmp a b \<le> 0) ys"
  shows "sorted_wrt (\<lambda>a b. cmp a b \<le> 0) (insertBy cmp x ys)"
  using assms(2)
proof (induction ys)
  case Nil
  then show ?case by simp
next
  case (Cons y ys)
  show ?case
  proof (cases "cmp x y \<le> 0")
    case True
    have "cmp x z \<le> 0" if "z \<in> set ys" for z
      using Cons.prems that True consistent_trans[OF assms(1), of x y z] by simp
    with True Cons.prems show ?thesis by simp
  next
    case False
    then have "cmp y x \<le> 0" by (rule consistent_total[OF assms(1)])
    with False Cons show ?thesis by (auto simp: set_insertBy)
  qed
qed

lemma sorted_arraySort:
  "consistent cmp \<Longrightarrow> sorted_wrt (\<lambda>a b. cmp a b \<le> 0) (arraySort cmp xs)"
proof (induction xs)
  case Nil
  then show ?case by (simp add: arraySort_def)
next
  case (Cons x xs)
  then have "sorted_wrt (\<lambda>a b. cmp a b \<le> 0) (insertBy cmp x (arraySort cmp xs))"
    by (intro sorted_insertBy) simp_all
  then show ?case by (simp add: arraySort_def)
qed

lemma filter_insertBy_in:
  "P x \<Longrightarrow> (\<And>y. y \<in> set ys \<Longrightarrow> P y \<Longrightarrow> cmp x y \<le> 0) \<Longrightarrow>
   filter P (insertBy cmp x ys) = x # filter P ys"
  by (induction ys) auto

lemma filter_insertBy_out: "\<not> P x \<Longrightarrow> filter P (insertBy cmp x ys) = filter P ys"
  by (induction ys) auto

lemma stable_arraySort:
  assumes "\<And>x y. P x \<Longrightarrow> P y \<Longrightarrow> cmp x y \<le> 0"
  shows "filter P (arraySort cmp xs) = filter P xs"
proof (induction xs)
  case Nil
  then show ?case by (simp add: arraySort_def)
next
  case (Cons x xs)
  have step: "arraySort cmp (x # xs) = insertBy cmp x (arraySort cmp xs)"
    by (simp add: arraySort_def)
  show ?case
  proof (cases "P x")
    case True
    then show ?thesis
      unfolding step using Cons.IH assms by (simp add: filter_insertBy_in)
  next
    case False
    then show ?thesis unfolding step using Cons.IH by (simp add: filter_insertBy_out)
  qed
qed

text \<open>
  Sorting by the negated comparator is the mirror image of sorting the mirrored input:
  appending an element to the input inserts it behind its ties, and reversal turns that
  into \<open>insertBy\<close> for the negated comparator.
\<close>

lemma insertBy_insertAfter_commute:
  assumes "consistent cmp"
  shows "insertBy cmp a (insertAfter cmp x ys) = insertAfter cmp x (insertBy cmp a ys)"
proof (induction ys)
  case Nil
  show ?case using consistent_antisym[OF assms, of x a] by auto
next
  case (Cons y ys)
  show ?case
  proof (cases "cmp a y \<le> 0")
    case ay: True
    show ?thesis
    proof (cases "cmp x y < 0")
      case True
      then show ?thesis using ay consistent_antisym[OF assms, of x a] by auto
    next
      case False
      then have "cmp y x \<le> 0" using consistent_antisym[OF assms, of x y] by simp
      with ay have "cmp a x \<le> 0" by (rule consistent_trans[OF assms])
      then have "\<not> cmp x a < 0" using consistent_antisym[OF assms, of x a] by simp
      with False ay show ?thesis by simp
    qed
  next
    case ay: False
    show ?thesis
    proof (cases "cmp x y < 0")
      case True
      then have xy: "cmp x y \<le> 0" by simp
      have "\<not> cmp a x \<le> 0"
      proof
        assume "cmp a x \<le> 0"
        from consistent_trans[OF assms this xy] ay show False by simp
      qed
      with True ay show ?thesis by simp
    next
      case False
      with ay Cons.IH show ?thesis by simp
    qed
  qed
qed

lemma arraySort_snoc:
  assumes "consistent cmp"
  shows "arraySort cmp (xs @ [x]) = insertAfter cmp x (arraySort cmp xs)"
proof (induction xs)
  case Nil
  show ?case by (simp add: arraySort_def)
next
  case (Cons a xs)
  have "arraySort cmp ((a # xs) @ [x]) = insertBy cmp a (arraySort cmp (xs @ [x]))"
    by (simp add: arraySort_def)
  also have "\<dots> = insertBy cmp a (insertAfter cmp x (arraySort cmp xs))"
    by (simp add: Cons.IH)
  also have "\<dots> = insertAfter cmp x (insertBy cmp a (arraySort cmp xs))"
    by (rule insertBy_insertAfter_commute[OF assms])
  finally show ?case by (simp add: arraySort_def)
qed

lemma insertAfter_snoc_less:
  "cmp x y < 0 \<Longrightarrow> insertAfter cmp x (ys @ [y]) = insertAfter cmp x ys @ [y]"
  by (induction ys) auto

lemma insertAfter_all_ge:
  "(\<And>z. z \<in> set zs \<Longrightarrow> \<not> cmp x z < 0) \<Longrightarrow> insertAfter cmp x zs = zs @ [x]"
  by (induction zs) auto

lemma rev_insertAfter:
  assumes "consistent cmp" and "\<And>a b. cmp' a b = - cmp a b"
    and "sorted_wrt (\<lambda>a b. cmp' a b \<le> 0) zs"
  shows "insertBy cmp' x zs = rev (insertAfter cmp x (rev zs))"
  using assms(3)
proof (induction zs)
  case Nil
  then show ?case by simp
next
  case (Cons z zs)
  show ?case
  proof (cases "cmp' x z \<le> 0")
    case True
    then have zx: "cmp z x \<le> 0"
      using assms(2)[of x z] consistent_antisym[OF assms(1), of x z] by simp
    have "\<not> cmp x w < 0" if "w \<in> set (rev zs @ [z])" for w
    proof -
      have "cmp w x \<le> 0"
      proof (cases "w = z")
        case True
        with zx show ?thesis by simp
      next
        case False
        with that have "w \<in> set zs" by simp
        with Cons.prems have "cmp' z w \<le> 0" by simp
        then have "cmp w z \<le> 0"
          using assms(2)[of z w] consistent_antisym[OF assms(1), of z w] by simp
        from consistent_trans[OF assms(1) this zx] show ?thesis .
      qed
      then show ?thesis using consistent_antisym[OF assms(1), of x w] by simp
    qed
    then have "insertAfter cmp x (rev zs @ [z]) = (rev zs @ [z]) @ [x]"
      by (rule insertAfter_all_ge)
    with True show ?thesis by simp
  next
    case False
    then have "cmp x z < 0" using assms(2)[of x z] by simp
    then have "insertAfter cmp x (rev zs @ [z]) = insertAfter cmp x (rev zs) @ [z]"
      by (rule insertAfter_snoc_less)
    moreover have "insertBy cmp' x zs = rev (insertAfter cmp x (rev zs))"
      using Cons by simp
    ultimately show ?thesis using False by simp
  qed
qed

lemma consistent_negate:
  assumes "consistent cmp" and "\<And>a b. cmp' a b = - cmp a b"
  shows "consistent cmp'"
  unfolding consistent_def
proof (intro conjI allI impI)
  fix x y show "cmp' x y = - cmp' y x"
    using consistent_antisym[OF assms(1), of x y] by (simp add: assms(2))
next
  fix x y z assume "cmp' x y \<le> 0 \<and> cmp' y z \<le> 0"
  then have "cmp z y \<le> 0" "cmp y x \<le> 0"
    using consistent_antisym[OF assms(1), of x y] consistent_antisym[OF assms(1), of y z]
    by (simp_all add: assms(2))
  from consistent_trans[OF assms(1) this] show "cmp' x z \<le> 0"
    using consistent_antisym[OF assms(1), of x z] by (simp add: assms(2))
qed

lemma arraySort_negate:
  assumes "consistent cmp" and "\<And>a b. cmp' a b = - cmp a b"
  shows "arraySort cmp' xs = rev (arraySort cmp (rev xs))"
proof (induction xs)
  case Nil
  show ?case by (simp add: arraySort_def)
next
  case (Cons x xs)
  have c': "consistent cmp'" by (rule consistent_negate[OF assms])
  have "arraySort cmp' (x # xs) = insertBy cmp' x (arraySort cmp' xs)"
    by (simp add: arraySort_def)
  also have "\<dots> = rev (insertAfter cmp x (rev (arraySort cmp' xs)))"
    by (rule rev_insertAfter[OF assms sorted_arraySort[OF c']])
  also have "rev (arraySort cmp' xs) = arraySort cmp (rev xs)"
    by (simp add: Cons.IH)
  also have "insertAfter cmp x (arraySort cmp (rev xs)) = arraySort cmp (rev xs @ [x])"
    by (simp add: arraySort_snoc[OF assms(1)])
  finally show ?case by simp
qed

text \<open>Without ties the sorted order does not depend on the input order.\<close>

lemma strict_sorted_unique:
  assumes "\<And>x y. R x y \<Longrightarrow> \<not> R y x"
    and "sorted_wrt R xs" and "sorted_wrt R ys" and "set xs = set ys"
  shows "xs = ys"
  using assms(2-)
proof (induction xs arbitrary: ys)
  case Nil
  then show ?case by simp
next
  case (Cons x xs)
  from Cons.prems(3) obtain y ys' where ys: "ys = y # ys'" by (cases ys) auto
  have irr: "\<not> R a a" for a using assms(1)[of a a] by blast
  have "x = y"
  proof (rule ccontr)
    assume ne: "x \<noteq> y"
    with Cons.prems(3) ys have "x \<in> set ys'" "y \<in> set xs" by auto
    with Cons.prems(1,2) ys have "R y x" "R x y" by auto
    with assms(1) show False by blast
  qed
  moreover have "x \<notin> set xs" "y \<notin> set ys'"
    using Cons.prems(1,2) ys irr by auto
  ultimately have "set xs = set ys'" using Cons.prems(3) ys by auto
  with Cons.IH[of ys'] Cons.prems(1,2) ys \<open>x = y\<close> show ?case by simp
qed

lemma arraySort_no_ties_unique:
  assumes "consistent cmp" and "\<And>x y. x \<in> set xs \<Longrightarrow> y \<in> set xs \<Longrightarrow> x \<noteq> y \<Longrightarrow> cmp x y \<noteq> 0"
    and "distinct xs" and "mset ys = mset xs"
  shows "arraySort cmp ys = arraySort cmp xs"
proof -
  have strict: "sorted_wrt (\<lambda>a b. cmp a b < 0) (arraySort cmp zs)" if "mset zs = mset xs" for zs
  proof -
    have d: "distinct (arraySort cmp zs)"
      using that assms(3) mset_arraySort[of cmp zs] by (metis mset_eq_imp_distinct_iff)
    have s: "set (arraySort cmp zs) = set xs"
      using that by (metis set_arraySort mset_eq_setD)
    have "sorted_wrt (\<lambda>a b. cmp a b \<le> 0 \<and> a \<noteq> b \<and> a \<in> set xs \<and> b \<in> set xs) (arraySort cmp zs)"
      using sorted_arraySort[OF assms(1), of zs] d s
      by (auto simp: sorted_wrt_iff_nth_less distinct_conv_nth)
    then show ?thesis
      by (rule sorted_wrt_mono_rel[rotated]) (use assms(2) in force)
  qed
  have asym: "cmp x y < 0 \<Longrightarrow> \<not> cmp y x < 0" for x y
    using consistent_antisym[OF assms(1), of x y] by simp
  show ?thesis
    by (rule strict_sorted_unique[where R = "\<lambda>a b. cmp a b < 0"])
      (use asym strict[OF assms(4)] strict[OF refl] assms(4) in
        \<open>auto simp: set_arraySort dest: mset_eq_setD\<close>)
qed

text \<open>Elements that exceed all others and tie among themselves end up last, in input order.\<close>

lemma insertBy_append_left:
  "(\<And>b. b \<in> set B \<Longrightarrow> cmp x b \<le> 0) \<Longrightarrow> insertBy cmp x (A @ B) = insertBy cmp x A @ B"
proof (induction A)
  case Nil
  then show ?case by (cases B) auto
next
  case (Cons a A)
  then show ?case by auto
qed

lemma insertBy_append_right:
  "(\<And>a. a \<in> set A \<Longrightarrow> \<not> cmp x a \<le> 0) \<Longrightarrow> insertBy cmp x (A @ B) = A @ insertBy cmp x B"
  by (induction A) auto

lemma arraySort_partition:
  assumes "\<And>x y. P x \<Longrightarrow> \<not> P y \<Longrightarrow> cmp x y > 0 \<and> cmp y x \<le> 0"
    and "\<And>x y. P x \<Longrightarrow> P y \<Longrightarrow> cmp x y \<le> 0"
  shows "arraySort cmp xs = arraySort cmp (filter (\<lambda>x. \<not> P x) xs) @ filter P xs"
proof (induction xs)
  case Nil
  show ?case by (simp add: arraySort_def)
next
  case (Cons x xs)
  let ?A = "arraySort cmp (filter (\<lambda>x. \<not> P x) xs)"
  let ?B = "filter P xs"
  have step: "arraySort cmp (x # xs) = insertBy cmp x (?A @ ?B)"
    using Cons.IH by (simp add: arraySort_def)
  show ?case
  proof (cases "P x")
    case True
    have "\<not> cmp x a \<le> 0" if "a \<in> set ?A" for a
      using that assms(1)[OF True, of a] by (auto simp: set_arraySort)
    then have "insertBy cmp x (?A @ ?B) = ?A @ insertBy cmp x ?B"
      by (rule insertBy_append_right)
    moreover have "insertBy cmp x ?B = x # ?B"
      using assms(2)[OF True] by (cases ?B) (auto simp: filter_eq_Cons_iff)
    ultimately show ?thesis using True step by simp
  next
    case False
    have "cmp x b \<le> 0" if "b \<in> set ?B" for b
      using that assms(1)[of b x] False by auto
    then have "insertBy cmp x (?A @ ?B) = insertBy cmp x ?A @ ?B"
      by (rule insertBy_append_left)
    then show ?thesis using False step by (simp add: arraySort_def)
  qed
qed

lemma insertBy_cong:
  "(\<And>y. y \<in> set ys \<Longrightarrow> cmp x y = cmp' x y) \<Longrightarrow> insertBy cmp x ys = insertBy cmp' x ys"
  by (induction ys) auto

lemma arraySort_cong:
  "(\<And>x y. x \<in> set xs \<Longrightarrow> y \<in> set xs \<Longrightarrow> cmp x y = cmp' x y) \<Longrightarrow>
   arraySort cmp xs = arraySort cmp' xs"
proof (induction xs)
  case Nil
  show ?case by (simp add: arraySort_def)
next
  case (Cons x xs)
  have "arraySort cmp xs = arraySort cmp' xs" using Cons by simp
  moreover have "insertBy cmp x (arraySort cmp' xs) = insertBy cmp' x (arraySort cmp' xs)"
    by (rule insertBy_cong) (use Cons.prems in \<open>simp add: set_arraySort\<close>)
  ultimately show ?case by (simp add: arraySort_def)
qed

section \<open>Facts about the comparator of GET /api/customers\<close>

lemma getProp_cases:
  "(\<forall>c. getProp c k = PNull \<or> (\<exists>s. getProp c k = PStr s)) \<or>
   (\<forall>c. \<exists>n. getProp c k = PNum n) \<or>
   (\<forall>c. \<exists>s. getProp c k = PArr s) \<or>
   (\<forall>c. getProp c k = PUndefined)"
  unfolding getProp_def by (auto split: option.splits)

lemma compareFn_antisym: "compareFn k ord x y = - compareFn k ord y x"
proof -
  consider (str) "\<forall>c. getProp c k = PNull \<or> (\<exists>s. getProp c k = PStr s)"
    | (num) "\<forall>c. \<exists>n. getProp c k = PNum n"
    | (arr) "\<forall>c. \<exists>s. getProp c k = PArr s"
    | (undef) "\<forall>c. getProp c k = PUndefined"
    using getProp_cases[of k] by blast
  then show ?thesis
  proof cases
    case str
    from str[rule_format, of x] str[rule_format, of y] show ?thesis
      by (auto simp: compareFn_def Let_def)
  next
    case num
    from num[rule_format, of x] num[rule_format, of y] show ?thesis
      by (auto simp: compareFn_def Let_def)
  next
    case arr
    from arr[rule_format, of x] arr[rule_format, of y] show ?thesis
      by (auto simp: compareFn_def Let_def)
  next
    case undef
    then show ?thesis by (simp add: compareFn_def Let_def)
  qed
qed

lemma compareFn_trans:
  assumes "compareFn k ord x y \<le> 0" and "compareFn k ord y z \<le> 0"
  shows "compareFn k ord x z \<le> 0"
proof -
  consider (str) "\<forall>c. getProp c k = PNull \<or> (\<exists>s. getProp c k = PStr s)"
    | (num) "\<forall>c. \<exists>n. getProp c k = PNum n"
    | (arr) "\<forall>c. \<exists>s. getProp c k = PArr s"
    | (undef) "\<forall>c. getProp c k = PUndefined"
    using getProp_cases[of k] by blast
  then show ?thesis
  proof cases
    case str
    from str[rule_format, of x] str[rule_format, of y] str[rule_format, of z] assms show ?thesis
      by (auto simp: compareFn_def Let_def split: if_splits)
  next
    case num
    from num[rule_format, of x] num[rule_format, of y] num[rule_format, of z] assms show ?thesis
      by (auto simp: compareFn_def Let_def split: if_splits)
  next
    case arr
    from arr[rule_format, of x] arr[rule_format, of y] arr[rule_format, of z] assms show ?thesis
      by (auto simp: compareFn_def Let_def split: if_splits)
  next
    case undef
    then show ?thesis by (simp add: compareFn_def Let_def)
  qed
qed

lemma compareFn_consistent: "consistent (compareFn k ord)"
  unfolding consistent_def using compareFn_antisym compareFn_trans by blast

lemma compareFn_null_left:
  "getProp a k = PNull \<Longrightarrow> getProp b k \<noteq> PNull \<Longrightarrow> compareFn k ord a b = 1"
  by (simp add: compareFn_def Let_def)

lemma compareFn_null_right:
  "getProp a k \<noteq> PNull \<Longrightarrow> getProp b k = PNull \<Longrightarrow> compareFn k ord a b = - 1"
  by (simp add: compareFn_def Let_def)

lemma compareFn_null_both:
  "getProp a k = PNull \<Longrightarrow> getProp b k = PNull \<Longrightarrow> compareFn k ord a b = 0"
  by (simp add: compareFn_def Let_def)

lemma compareFn_desc:
  "getProp a k \<noteq> PNull \<Longrightarrow> getProp b k \<noteq> PNull \<Longrightarrow>
   compareFn k (QStr ''desc'') a b = - compareFn k (QStr ''asc'') a b"
  by (simp add: compareFn_def Let_def split: prod.splits)

lemma compareFn_strings:
  "getProp a k = PStr s \<Longrightarrow> getProp b k = PStr t \<Longrightarrow>
   compareFn k ord a b =
     (if ord = QStr ''desc'' then - 1 else 1) *
     (if toLowerCase s < toLowerCase t then - 1 else if toLowerCase t < toLowerCase s then 1 else 0)"
  by (simp add: compareFn_def Let_def)

lemma compareFn_numbers:
  "getProp a k = PNum x \<Longrightarrow> getProp b k = PNum y \<Longrightarrow>
   compareFn k ord a b =
     (if ord = QStr ''desc'' then - 1 else 1) * (if x < y then - 1 else if y < x then 1 else 0)"
  by (simp add: compareFn_def Let_def)

lemma nulls_last_sorted:
  "sorted_wrt (\<lambda>a b. compareFn k ord a b \<le> 0) ys \<Longrightarrow>
   sorted_wrt (\<lambda>a b. getProp a k = PNull \<longrightarrow> getProp b k = PNull) ys"
proof (erule sorted_wrt_mono_rel[rotated])
  fix a b assume "compareFn k ord a b \<le> 0"
  then show "getProp a k = PNull \<longrightarrow> getProp b k = PNull"
    using compareFn_null_left[of a k b ord] by auto
qed

lemma stable_compareFn:
  "filter (\<lambda>b. compareFn k ord c b = 0) (arraySort (compareFn k ord) cs)
     = filter (\<lambda>b. compareFn k ord c b = 0) cs"
proof (rule stable_arraySort)
  fix x y assume "compareFn k ord c x = 0" "compareFn k ord c y = 0"
  then have "compareFn k ord x c \<le> 0" "compareFn k ord c y \<le> 0"
    using compareFn_antisym[of k ord x c] by simp_all
  then show "compareFn k ord x y \<le> 0" by (rule compareFn_trans)
qed

text \<open>For a summary field the comparator is the comparison of that field.\<close>

lemma getProp_fields:
  "getProp c ''id'' = PStr (idC c)"
  "getProp c ''name'' = PStr (name c)"
  "getProp c ''email'' = PStr (email c)"
  "getProp c ''status'' = PStr (status c)"
  "getProp c ''revenue'' = PNum (revenue c)"
  "getProp c ''createdAt'' = PStr (createdAt c)"
  "getProp c ''orderCount'' = PNum (of_nat (orderCount c))"
  "getProp c ''lastOrderDate'' = (case lastOrderDate c of None \<Rightarrow> PNull | Some d \<Rightarrow> PStr d)"
  by (simp_all add: getProp_def)

lemma specCompare_fields:
  "specCompare ''id'' ord a b = specCompareStrings ord (Some (idC a)) (Some (idC b))"
  "specCompare ''name'' ord a b = specCompareStrings ord (Some (name a)) (Some (name b))"
  "specCompare ''email'' ord a b = specCompareStrings ord (Some (email a)) (Some (email b))"
  "specCompare ''status'' ord a b = specCompareStrings ord (Some (status a)) (Some (status b))"
  "specCompare ''revenue'' ord a b = specCompareNumbers ord (revenue a) (revenue b)"
  "specCompare ''createdAt'' ord a b
     = specCompareStrings ord (Some (createdAt a)) (Some (createdAt b))"
  "specCompare ''orderCount'' ord a b = specCompareNumbers ord (orderCount a) (orderCount b)"
  "specCompare ''lastOrderDate'' ord a b
     = specCompareStrings ord (lastOrderDate a) (lastOrderDate b)"
  by (simp_all add: specCompare_def)

lemma compareFn_of_strings:
  "getProp a k = PStr s \<Longrightarrow> getProp b k = PStr t \<Longrightarrow>
   compareFn k ord a b = specCompareStrings ord (Some s) (Some t)"
  by (simp add: compareFn_def Let_def specCompareStrings_def direction_def threeWay_def)

lemma compareFn_of_numbers:
  "getProp a k = PNum x \<Longrightarrow> getProp b k = PNum y \<Longrightarrow>
   compareFn k ord a b = specCompareNumbers ord x y"
  by (simp add: compareFn_def Let_def specCompareNumbers_def direction_def threeWay_def)

lemma specCompareNumbers_of_nat:
  "specCompareNumbers ord (of_nat m :: rat) (of_nat n) = specCompareNumbers ord m n"
  by (simp add: specCompareNumbers_def threeWay_def)

lemma compareFn_lastOrderDate:
  "compareFn ''lastOrderDate'' ord a b = specCompareStrings ord (lastOrderDate a) (lastOrderDate b)"
proof (cases "lastOrderDate a"; cases "lastOrderDate b")
  fix s t assume "lastOrderDate a = Some s" "lastOrderDate b = Some t"
  then show ?thesis
    using compareFn_of_strings[of a "''lastOrderDate''" s b t ord]
    by (simp add: getProp_fields)
qed (simp_all add: compareFn_def getProp_fields specCompareStrings_def)

lemma compareFn_by_field:
  assumes "k \<in> set summaryFields"
  shows "compareFn k ord a b = specCompare k ord a b"
proof -
  from assms have
    "k = ''id'' \<or> k = ''name'' \<or> k = ''email'' \<or> k = ''status'' \<or> k = ''revenue'' \<or>
     k = ''createdAt'' \<or> k = ''orderCount'' \<or> k = ''lastOrderDate'' \<or> False"
    unfolding summaryFields_def list.set insert_iff empty_iff .
  then show ?thesis
  proof (elim disjE)
    assume k: "k = ''id''"
    show ?thesis unfolding k specCompare_fields
      by (rule compareFn_of_strings) (simp_all only: getProp_fields)
  next
    assume k: "k = ''name''"
    show ?thesis unfolding k specCompare_fields
      by (rule compareFn_of_strings) (simp_all only: getProp_fields)
  next
    assume k: "k = ''email''"
    show ?thesis unfolding k specCompare_fields
      by (rule compareFn_of_strings) (simp_all only: getProp_fields)
  next
    assume k: "k = ''status''"
    show ?thesis unfolding k specCompare_fields
      by (rule compareFn_of_strings) (simp_all only: getProp_fields)
  next
    assume k: "k = ''revenue''"
    show ?thesis unfolding k specCompare_fields
      by (rule compareFn_of_numbers) (simp_all only: getProp_fields)
  next
    assume k: "k = ''createdAt''"
    show ?thesis unfolding k specCompare_fields
      by (rule compareFn_of_strings) (simp_all only: getProp_fields)
  next
    assume k: "k = ''orderCount''"
    show ?thesis unfolding k specCompare_fields specCompareNumbers_of_nat[symmetric]
      by (rule compareFn_of_numbers) (simp_all only: getProp_fields)
  next
    assume k: "k = ''lastOrderDate''"
    show ?thesis unfolding k specCompare_fields by (rule compareFn_lastOrderDate)
  next
    assume False
    then show ?thesis ..
  qed
qed

lemma nulls_last_by_field:
  "sorted_wrt (\<lambda>a b. lastOrderDate a = None \<longrightarrow> lastOrderDate b = None)
     (sortStep (QStr ''lastOrderDate'') ord cs)"
proof -
  have "sorted_wrt (\<lambda>a b. getProp a ''lastOrderDate'' = PNull \<longrightarrow> getProp b ''lastOrderDate'' = PNull)
     (arraySort (compareFn ''lastOrderDate'' ord) cs)"
    by (rule nulls_last_sorted[OF sorted_arraySort[OF compareFn_consistent]])
  then have "sorted_wrt (\<lambda>a b. lastOrderDate a = None \<longrightarrow> lastOrderDate b = None)
     (arraySort (compareFn ''lastOrderDate'' ord) cs)"
  proof (rule sorted_wrt_mono_rel[rotated])
    fix a b
    assume "getProp a ''lastOrderDate'' = PNull \<longrightarrow> getProp b ''lastOrderDate'' = PNull"
    then show "lastOrderDate a = None \<longrightarrow> lastOrderDate b = None"
      by (auto simp: getProp_fields split: option.splits)
  qed
  then show ?thesis by (simp add: sortStep_def)
qed

lemma sortStep_desc_rev:
  "sortStep (QStr k) (QStr ''desc'') cs =
     rev (sortStep (QStr k) (QStr ''asc'') (rev (filter (\<lambda>c. getProp c k \<noteq> PNull) cs)))
       @ filter (\<lambda>c. getProp c k = PNull) cs"
proof -
  let ?d = "compareFn k (QStr ''desc'')" and ?a = "compareFn k (QStr ''asc'')"
  let ?nn = "filter (\<lambda>c. getProp c k \<noteq> PNull) cs"
  have "arraySort ?d cs = arraySort ?d (filter (\<lambda>c. \<not> getProp c k = PNull) cs)
          @ filter (\<lambda>c. getProp c k = PNull) cs"
    by (rule arraySort_partition)
      (simp_all add: compareFn_null_left compareFn_null_right compareFn_null_both)
  moreover have "arraySort ?d ?nn = arraySort (\<lambda>a b. - ?a a b) ?nn"
    by (rule arraySort_cong) (simp add: compareFn_desc)
  moreover have "arraySort (\<lambda>a b. - ?a a b) ?nn = rev (arraySort ?a (rev ?nn))"
    by (rule arraySort_negate[OF compareFn_consistent]) simp
  ultimately show ?thesis by (simp add: sortStep_def)
qed

lemma sortStep_nulls_last:
  "sortStep (QStr k) ord cs =
     sortStep (QStr k) ord (filter (\<lambda>c. getProp c k \<noteq> PNull) cs)
       @ filter (\<lambda>c. getProp c k = PNull) cs"
proof -
  have "arraySort (compareFn k ord) cs =
          arraySort (compareFn k ord) (filter (\<lambda>c. \<not> getProp c k = PNull) cs)
          @ filter (\<lambda>c. getProp c k = PNull) cs"
    by (rule arraySort_partition)
      (simp_all add: compareFn_null_left compareFn_null_right compareFn_null_both)
  then show ?thesis by (simp add: sortStep_def)
qed

lemma sortStep_no_ties:
  assumes "\<forall>i j. i < j \<and> j < length cs \<longrightarrow> compareFn k (QStr ''asc'') (cs ! i) (cs ! j) \<noteq> 0"
  shows "sortStep (QStr k) (QStr ''asc'') (rev cs) = sortStep (QStr k) (QStr ''asc'') cs"
proof -
  let ?a = "compareFn k (QStr ''asc'')"
  have refl0: "?a x x = 0" for x using compareFn_antisym[of k "QStr ''asc''" x x] by simp
  have d: "distinct cs"
    unfolding distinct_conv_nth
  proof (intro allI impI)
    fix i j assume ij: "i < length cs" "j < length cs" "i \<noteq> j"
    show "cs ! i \<noteq> cs ! j"
    proof
      assume e: "cs ! i = cs ! j"
      from ij consider "i < j" | "j < i" by linarith
      then show False
        using assms ij e refl0 by cases (metis, metis)
    qed
  qed
  have nt: "?a x y \<noteq> 0" if "x \<in> set cs" "y \<in> set cs" "x \<noteq> y" for x y
  proof -
    from that obtain i j where ij: "i < length cs" "j < length cs" "cs ! i = x" "cs ! j = y"
      by (auto simp: in_set_conv_nth)
    with that(3) have "i \<noteq> j" by auto
    then consider "i < j" | "j < i" by linarith
    then show ?thesis
    proof cases
      case 1
      with assms ij show ?thesis by blast
    next
      case 2
      with assms ij have "?a y x \<noteq> 0" by blast
      then show ?thesis using compareFn_antisym[of k "QStr ''asc''" x y] by simp
    qed
  qed
  have "arraySort ?a (rev cs) = arraySort ?a cs"
    by (rule arraySort_no_ties_unique[OF compareFn_consistent nt d]) simp_all
  then show ?thesis by (simp add: sortStep_def)
qed

section \<open>Facts about searching and slicing\<close>

lemma stringIncludes_sublist: "stringIncludes s p \<longleftrightarrow> sublist p s"
  by (induction s) (auto simp: sublist_Cons_right)

lemma sublist_iff_offset:
  "sublist p s \<longleftrightarrow> (\<exists>i. i + length p \<le> length s \<and> take (length p) (drop i s) = p)"
proof
  assume "sublist p s"
  then obtain pre post where "s = pre @ p @ post" by (auto simp: sublist_def)
  then show "\<exists>i. i + length p \<le> length s \<and> take (length p) (drop i s) = p"
    by (intro exI[of _ "length pre"]) simp
next
  assume "\<exists>i. i + length p \<le> length s \<and> take (length p) (drop i s) = p"
  then obtain i where i: "i + length p \<le> length s" "take (length p) (drop i s) = p" by blast
  have "drop i s = take (length p) (drop i s) @ drop (length p) (drop i s)"
    by (simp only: append_take_drop_id)
  moreover have "s = take i s @ drop i s" by simp
  ultimately have "s = take i s @ take (length p) (drop i s) @ drop (length p) (drop i s)"
    by simp
  with i(2) have "s = take i s @ p @ drop (length p) (drop i s)" by simp
  then show "sublist p s" unfolding sublist_def by blast
qed

lemma stringIncludes_toLowerCase:
  "stringIncludes (toLowerCase text) (toLowerCase pat) \<longleftrightarrow> ciContains text pat"
proof -
  have "(take (length pat) (drop i (map toLowerChar text)) = map toLowerChar pat) \<longleftrightarrow>
        (\<forall>j < length pat. toLowerChar (text ! (i + j)) = toLowerChar (pat ! j))"
    if "i + length pat \<le> length text" for i
    using that by (auto simp: list_eq_iff_nth_eq)
  then have "(\<exists>i. i + length pat \<le> length text \<and>
            take (length pat) (drop i (map toLowerChar text)) = map toLowerChar pat) \<longleftrightarrow>
        (\<exists>i. i + length pat \<le> length text \<and>
            (\<forall>j < length pat. toLowerChar (text ! (i + j)) = toLowerChar (pat ! j)))"
    by blast
  moreover have "ciContains text pat \<longleftrightarrow>
        (\<exists>i. i + length pat \<le> length text \<and>
            (\<forall>j < length pat. toLowerChar (text ! (i + j)) = toLowerChar (pat ! j)))"
  proof
    assume "ciContains text pat"
    then show "\<exists>i. i + length pat \<le> length text \<and>
            (\<forall>j < length pat. toLowerChar (text ! (i + j)) = toLowerChar (pat ! j))"
      unfolding ciContains_def by auto
  next
    assume "\<exists>i. i + length pat \<le> length text \<and>
            (\<forall>j < length pat. toLowerChar (text ! (i + j)) = toLowerChar (pat ! j))"
    then obtain i where i: "i + length pat \<le> length text"
      "\<forall>j < length pat. toLowerChar (text ! (i + j)) = toLowerChar (pat ! j)" by blast
    from i(1) have "i \<in> {.. length text}" by simp
    with i show "ciContains text pat" unfolding ciContains_def
      by (intro bexI[of _ i]) simp_all
  qed
  ultimately show ?thesis
    unfolding stringIncludes_sublist sublist_iff_offset toLowerCase_def by simp
qed

lemma matchesSearch_iff:
  "matchesSearch (toLowerCase s) c \<longleftrightarrow> ciContains (name c) s \<or> ciContains (email c) s"
  by (simp add: matchesSearch_def stringIncludes_toLowerCase)

lemma set_slice: "set (slice xs a b) \<subseteq> set xs"
  unfolding slice_def Let_def by (meson set_take_subset set_drop_subset subset_trans)

lemma ceiling_pages:
  fixes n :: nat and l :: int
  assumes "1 \<le> l"
  shows "(\<lceil>(of_nat n :: rat) / of_int l\<rceil> - 1) * l < int n \<and> int n \<le> \<lceil>(of_nat n :: rat) / of_int l\<rceil> * l"
proof -
  let ?q = "(of_nat n :: rat) / of_int l"
  have lpos: "(0::rat) < of_int l" using assms by simp
  have "?q \<le> of_int \<lceil>?q\<rceil>" by (rule le_of_int_ceiling)
  then have "?q * of_int l \<le> (of_int \<lceil>?q\<rceil> :: rat) * of_int l"
    using lpos by (intro mult_right_mono) simp_all
  moreover have ql: "?q * of_int l = of_nat n" using lpos by simp
  ultimately have "of_nat n \<le> (of_int \<lceil>?q\<rceil> :: rat) * of_int l" by simp
  then have up: "int n \<le> \<lceil>?q\<rceil> * l"
    by (metis of_int_le_iff of_int_mult of_int_of_nat_eq)
  have "(of_int \<lceil>?q\<rceil> :: rat) - 1 < ?q" using ceiling_correct[of ?q] by linarith
  then have "((of_int \<lceil>?q\<rceil> :: rat) - 1) * of_int l < ?q * of_int l"
    using lpos by (intro mult_strict_right_mono) simp_all
  then have "((of_int \<lceil>?q\<rceil> :: rat) - 1) * of_int l < of_nat n"
    using ql by simp
  then have "(of_int ((\<lceil>?q\<rceil> - 1) * l) :: rat) < of_int (int n)" by simp
  then have lo: "(\<lceil>?q\<rceil> - 1) * l < int n" by (simp only: of_int_less_iff)
  show ?thesis using up lo by simp
qed

section \<open>Facts about rounding and the slice indices\<close>

lemma roundMagnitude_small: "m < 2 ^ 53 \<Longrightarrow> roundMagnitude m = m"
  by (simp add: roundMagnitude_def)

lemma roundMagnitude_lower:
  assumes "2 ^ 53 \<le> m"
  shows "2 ^ nat (bitlen m - 1) \<le> roundMagnitude m" and "2 ^ 53 \<le> roundMagnitude m"
proof -
  have pos: "0 < m" using assms by (simp add: less_le_trans[of 0 "2 ^ 53"])
  from bitlen_bounds[OF pos] have lo: "2 ^ nat (bitlen m - 1) \<le> m" and hi: "m < 2 ^ nat (bitlen m)"
    by simp_all
  have "(2::int) ^ 53 < 2 ^ nat (bitlen m)" using assms hi by linarith
  then have "53 < nat (bitlen m)"
    by (rule power_less_imp_less_exp[where a = "2::int", rotated]) simp
  then have b: "54 \<le> bitlen m" by linarith
  define e where "e = nat (bitlen m - 53)"
  have e1: "1 \<le> e" and eb: "nat (bitlen m - 1) = e + 52" using b by (simp_all add: e_def)
  define q where "q = m div 2 ^ e"
  define q' where "q' = (if 2 ^ (e - 1) < m mod 2 ^ e \<or> (m mod 2 ^ e = 2 ^ (e - 1) \<and> odd q)
                         then q + 1 else q)"
  have rm: "roundMagnitude m = q' * 2 ^ e"
    using assms by (simp add: roundMagnitude_def Let_def e_def q_def q'_def)
  have "(2::int) ^ (e + 52) div 2 ^ e \<le> m div 2 ^ e"
    using lo eb by (intro zdiv_mono1) simp_all
  moreover have "(2::int) ^ (e + 52) div 2 ^ e = 2 ^ 52"
    by (simp add: power_add)
  ultimately have q52: "2 ^ 52 \<le> q" by (simp add: q_def)
  have "q \<le> q'" by (simp add: q'_def)
  with q52 have "2 ^ 52 \<le> q'" by linarith
  then have "(2::int) ^ 52 * 2 ^ e \<le> q' * 2 ^ e" by (intro mult_right_mono) simp_all
  then have ge: "(2::int) ^ (e + 52) \<le> q' * 2 ^ e" by (simp add: power_add mult.commute)
  then show "2 ^ nat (bitlen m - 1) \<le> roundMagnitude m" by (simp add: rm eb)
  have "(2::int) ^ 53 \<le> 2 ^ (e + 52)" using e1 by (intro power_increasing) simp_all
  with ge show "2 ^ 53 \<le> roundMagnitude m" by (simp add: rm)
qed

lemma roundToDouble_exact: "0 \<le> x \<Longrightarrow> x < 2 ^ 53 \<Longrightarrow> roundToDouble x = Fin x"
proof -
  assume a: "0 \<le> x" "x < 2 ^ 53"
  have "(2::int) ^ 53 \<le> 2 ^ 1024" by (intro power_increasing) simp_all
  with a have "\<not> 2 ^ 1024 \<le> x" by linarith
  with a show ?thesis by (simp add: roundToDouble_def roundMagnitude_small Let_def)
qed

lemma roundToDouble_pow53: "roundToDouble (2 ^ 53) = Fin (2 ^ 53)"
  by code_simp

lemma roundToDouble_large:
  assumes "2 ^ 53 \<le> x"
  shows "roundToDouble x = PosInf \<or> (\<exists>k \<ge> 2 ^ 53. roundToDouble x = Fin k)"
proof -
  have x0: "0 \<le> x" "\<not> x < 0" using assms by (simp_all add: order_trans[of 0 "2 ^ 53"])
  then have ax: "\<bar>x\<bar> = x" by simp
  from roundMagnitude_lower(2)[OF assms] show ?thesis
    using x0 by (auto simp: roundToDouble_def Let_def ax)
qed

lemma roundToDouble_overflow:
  assumes "2 ^ 1024 \<le> x"
  shows "roundToDouble x = PosInf"
proof -
  have "(2::int) ^ 53 \<le> 2 ^ 1024" by (intro power_increasing) simp_all
  with assms have x53: "2 ^ 53 \<le> x" by linarith
  then have pos: "0 < x" by (simp add: less_le_trans[of 0 "2 ^ 53"])
  from bitlen_bounds[OF pos] have hi: "x < 2 ^ nat (bitlen x)" by simp
  with assms have "(2::int) ^ 1024 < 2 ^ nat (bitlen x)" by linarith
  then have "1024 < nat (bitlen x)"
    by (rule power_less_imp_less_exp[where a = "2::int", rotated]) simp
  then have "1024 \<le> nat (bitlen x - 1)" by linarith
  then have "(2::int) ^ 1024 \<le> 2 ^ nat (bitlen x - 1)" by (intro power_increasing) simp_all
  with roundMagnitude_lower(1)[OF x53] have "2 ^ 1024 \<le> roundMagnitude x" by linarith
  then show ?thesis using pos by (simp add: roundToDouble_def Let_def)
qed

lemma near_roundToDouble: "0 \<le> x \<Longrightarrow> near (2 ^ 53) x (roundToDouble x)"
proof -
  assume x: "0 \<le> x"
  consider "x < 2 ^ 53" | "x = 2 ^ 53" | "2 ^ 53 < x" by linarith
  then show ?thesis
  proof cases
    case 1
    with x show ?thesis by (simp add: near_def roundToDouble_exact)
  next
    case 2
    show ?thesis unfolding 2 near_def using roundToDouble_pow53 by (intro disjI1)
  next
    case 3
    then have "2 ^ 53 \<le> x" by simp
    from roundToDouble_large[OF this] 3 show ?thesis by (auto simp: near_def)
  qed
qed

lemma near_weaken: "near T x v \<Longrightarrow> T' \<le> T \<Longrightarrow> near T' x v"
  unfolding near_def by (metis order_trans)

lemma le_times: "(a::int) \<le> l \<Longrightarrow> 1 \<le> x \<Longrightarrow> 0 \<le> a \<Longrightarrow> a \<le> x * l"
  using mult_mono[of 1 x a l] by simp

lemma near_minus_one:
  assumes "near (2 ^ 53) x v" and "1 \<le> x"
  shows "near (2 ^ 53 - 1) (x - 1) (jsSub v (Fin 1))"
proof -
  have r: "near (2 ^ 53 - 1) y (roundToDouble y)" if "0 \<le> y" for y
    using near_roundToDouble[OF that] by (rule near_weaken) simp
  from assms(1) consider (exact) "v = Fin x"
    | (inf) "2 ^ 53 \<le> x" "v = PosInf"
    | (big) k where "2 ^ 53 \<le> x" "2 ^ 53 \<le> k" "v = Fin k"
    unfolding near_def by blast
  then show ?thesis
  proof cases
    case exact
    with r[of "x - 1"] assms(2) show ?thesis by (simp add: jsSub_def)
  next
    case inf
    then show ?thesis by (simp add: jsSub_def near_def)
  next
    case big
    have "0 \<le> k - 1" using big(2) by (simp add: order_trans[of 1 "2 ^ 53"])
    from near_roundToDouble[OF this] big(1,2) have "near (2 ^ 53 - 1) (x - 1) (roundToDouble (k - 1))"
      unfolding near_def by (elim disjE conjE exE) (auto intro: order_trans)
    with big(3) show ?thesis by (simp add: jsSub_def)
  qed
qed

lemma near_times_limit:
  assumes "near (2 ^ 53 - 1) x v" and "0 \<le> x" and "1 \<le> l"
    and "L = l \<or> (2 ^ 53 \<le> l \<and> 2 ^ 53 \<le> L)"
  shows "near (2 ^ 53 - 1) (x * l) (jsMul v (Fin L))"
proof -
  have r: "near (2 ^ 53 - 1) y (roundToDouble y)" if "0 \<le> y" for y
    using near_roundToDouble[OF that] by (rule near_weaken) simp
  have L1: "1 \<le> L" using assms(3,4) by (auto intro: order_trans[of 1 "2 ^ 53"])
  from assms(1) consider (exact) "v = Fin x"
    | (inf) "2 ^ 53 - 1 \<le> x" "v = PosInf"
    | (big) k where "2 ^ 53 - 1 \<le> x" "2 ^ 53 - 1 \<le> k" "v = Fin k"
    unfolding near_def by blast
  then show ?thesis
  proof cases
    case exact
    from assms(4) show ?thesis
    proof
      assume "L = l"
      with exact r[of "x * l"] assms(2,3) show ?thesis by simp
    next
      assume b: "2 ^ 53 \<le> l \<and> 2 ^ 53 \<le> L"
      show ?thesis
      proof (cases "x = 0")
        case True
        with exact r[of 0] show ?thesis by simp
      next
        case False
        with assms(2) have x1: "1 \<le> x" by simp
        have xl: "2 ^ 53 \<le> x * l" and xL: "2 ^ 53 \<le> x * L"
          using b x1 by (simp_all add: le_times)
        from roundToDouble_large[OF xL] xl exact show ?thesis
          by (auto simp: near_def intro: order_trans)
      qed
    qed
  next
    case inf
    have "(2 ^ 53 - 1) * 1 \<le> x * l" using inf(1) assms(3) by (intro mult_mono) simp_all
    moreover have "jsMul PosInf (Fin L) = PosInf" using L1 by simp
    ultimately show ?thesis using inf(2) by (simp add: near_def)
  next
    case big
    have xl: "(2 ^ 53 - 1) * 1 \<le> x * l" using big(1) assms(3) by (intro mult_mono) simp_all
    have kL: "(2 ^ 53 - 1) * 1 \<le> k * L" using big(2) L1 by (intro mult_mono) simp_all
    then have "0 \<le> k * L" by simp
    from near_roundToDouble[OF this] kL xl have "near (2 ^ 53 - 1) (x * l) (roundToDouble (k * L))"
      unfolding near_def by (elim disjE conjE exE) (auto intro: order_trans)
    with big(3) show ?thesis by simp
  qed
qed

lemma near_plus_limit:
  assumes "near (2 ^ 53 - 1) s v" and "0 \<le> s" and "1 \<le> l"
    and "L = l \<or> (2 ^ 53 \<le> l \<and> 2 ^ 53 \<le> L)"
  shows "near (2 ^ 53 - 1) (s + l) (jsAdd v (Fin L))"
proof -
  have r: "near (2 ^ 53 - 1) y (roundToDouble y)" if "0 \<le> y" for y
    using near_roundToDouble[OF that] by (rule near_weaken) simp
  have L1: "1 \<le> L" using assms(3,4) by (auto intro: order_trans[of 1 "2 ^ 53"])
  from assms(1) consider (exact) "v = Fin s"
    | (inf) "2 ^ 53 - 1 \<le> s" "v = PosInf"
    | (big) k where "2 ^ 53 - 1 \<le> s" "2 ^ 53 - 1 \<le> k" "v = Fin k"
    unfolding near_def by blast
  then show ?thesis
  proof cases
    case exact
    from assms(4) show ?thesis
    proof
      assume "L = l"
      with exact r[of "s + l"] assms(2,3) show ?thesis by simp
    next
      assume b: "2 ^ 53 \<le> l \<and> 2 ^ 53 \<le> L"
      then have sl: "2 ^ 53 \<le> s + l" and sL: "2 ^ 53 \<le> s + L" using assms(2) by simp_all
      from roundToDouble_large[OF sL] sl exact show ?thesis
        by (auto simp: near_def intro: order_trans)
    qed
  next
    case inf
    then show ?thesis using assms(3) by (simp add: near_def)
  next
    case big
    have sl: "2 ^ 53 - 1 \<le> s + l" using big(1) assms(3) by simp
    have kL: "2 ^ 53 \<le> k + L" using big(2) L1 by simp
    from roundToDouble_large[OF kL] sl big(3) show ?thesis
      by (auto simp: near_def intro: order_trans)
  qed
qed

lemma relativeIndex_near:
  assumes "near (2 ^ 53 - 1) x v" and "0 \<le> x" and "int n \<le> 2 ^ 53 - 1"
  shows "relativeIndex n v = min n (nat x)"
proof -
  from assms(1) consider (exact) "v = Fin x"
    | (inf) "2 ^ 53 - 1 \<le> x" "v = PosInf"
    | (big) k where "2 ^ 53 - 1 \<le> x" "2 ^ 53 - 1 \<le> k" "v = Fin k"
    unfolding near_def by blast
  then show ?thesis
  proof cases
    case exact
    with assms(2) show ?thesis by (simp add: relativeIndex_def min.commute)
  next
    case inf
    with assms(3) have "n \<le> nat x" by linarith
    with inf show ?thesis by (simp add: relativeIndex_def)
  next
    case big
    with assms(3) have "n \<le> nat x" "n \<le> nat k" "\<not> k < 0" by linarith+
    with big show ?thesis by (simp add: relativeIndex_def)
  qed
qed

lemma take_drop_clamped:
  "take (min (length xs) (a + b) - min (length xs) a) (drop (min (length xs) a) xs)
     = take b (drop a xs)"
  by (cases "a \<le> length xs") (simp_all add: min_def)

lemma finite_limit:
  assumes "1 \<le> l" and "roundToDouble l \<noteq> PosInf"
  shows "\<exists>L. roundToDouble l = Fin L \<and> (L = l \<or> (2 ^ 53 \<le> l \<and> 2 ^ 53 \<le> L))"
proof -
  have "0 \<le> l" using assms(1) by simp
  from near_roundToDouble[OF this] assms(2) show ?thesis unfolding near_def by auto
qed

lemma ceiling_beyond:
  fixes n :: nat and L :: int
  assumes "int n < L"
  shows "\<lceil>(of_nat n :: rat) / of_int L\<rceil> = (if n = 0 then 0 else 1)"
proof (cases "n = 0")
  case True
  then show ?thesis by simp
next
  case False
  have Lpos: "(0::rat) < of_int L" using assms by simp
  have "(of_nat n :: rat) < of_int L" using assms by (metis of_int_less_iff of_int_of_nat_eq)
  then have "(of_nat n :: rat) / of_int L < 1" using Lpos by simp
  moreover have "(0::rat) < of_nat n / of_int L" using False Lpos by simp
  ultimately have "\<lceil>(of_nat n :: rat) / of_int L\<rceil> = 1"
    by (intro ceiling_unique) simp_all
  with False show ?thesis by simp
qed

lemma slice_of_page:
  assumes "1 \<le> p" and "1 \<le> l" and "roundToDouble l = Fin L"
    and "L = l \<or> (2 ^ 53 \<le> l \<and> 2 ^ 53 \<le> L)" and "int (length xs) \<le> 2 ^ 53 - 1"
  shows "slice xs (jsMul (jsSub (roundToDouble p) (Fin 1)) (Fin L))
           (jsAdd (jsMul (jsSub (roundToDouble p) (Fin 1)) (Fin L)) (Fin L))
         = take (nat l) (drop (nat ((p - 1) * l)) xs)"
proof -
  let ?S = "jsMul (jsSub (roundToDouble p) (Fin 1)) (Fin L)"
  have p0: "0 \<le> p" "0 \<le> p - 1" using assms(1) by simp_all
  have s0: "0 \<le> (p - 1) * l" using assms(1,2) by simp
  have d: "near (2 ^ 53 - 1) (p - 1) (jsSub (roundToDouble p) (Fin 1))"
    by (rule near_minus_one[OF near_roundToDouble[OF p0(1)] assms(1)])
  have s: "near (2 ^ 53 - 1) ((p - 1) * l) ?S"
    by (rule near_times_limit[OF d p0(2) assms(2,4)])
  have e: "near (2 ^ 53 - 1) ((p - 1) * l + l) (jsAdd ?S (Fin L))"
    by (rule near_plus_limit[OF s s0 assms(2,4)])
  have e0: "0 \<le> (p - 1) * l + l" using s0 assms(2) by simp
  have rs: "relativeIndex (length xs) ?S = min (length xs) (nat ((p - 1) * l))"
    by (rule relativeIndex_near[OF s s0 assms(5)])
  have re: "relativeIndex (length xs) (jsAdd ?S (Fin L)) = min (length xs) (nat ((p - 1) * l + l))"
    by (rule relativeIndex_near[OF e e0 assms(5)])
  have "nat ((p - 1) * l + l) = nat ((p - 1) * l) + nat l"
    using s0 assms(2) by (simp add: nat_add_distrib)
  then show ?thesis
    unfolding slice_def Let_def rs re by (simp only: take_drop_clamped)
qed

lemma length_filterStep: "length (filterStep search xs) \<le> length xs"
  by (cases search) (simp_all add: filterStep_def Let_def)

section \<open>The order invariant is kept by every operation\<close>

lemma orderInv_generateOrders: "list_all orderInv (generateOrders getTime draws)"
  by (auto simp: list_all_iff generateOrders_def set_arraySort orderInv_def Let_def)

lemma storeInv_append: "storeInv (xs @ ys) = (storeInv xs \<and> storeInv ys)"
  by (simp add: storeInv_def)

lemma orders_createCustomerWithId:
  "orders (createCustomerWithId getTime draw i n e) = generateOrders getTime (drawOrders draw)"
  by (simp add: createCustomerWithId_def Let_def)

lemma storeInv_generateMockCustomers:
  "storeInv (generateMockCustomers getTime knownDraws randomDraws n)"
  by (auto simp: generateMockCustomers_def createKnownCustomers_def Let_def storeInv_def
      list_all_iff orders_createCustomerWithId
      orderInv_generateOrders[unfolded list_all_iff, rule_format])

lemma storeInv_updateCustomerStatus:
  "storeInv st \<Longrightarrow> storeInv (snd (updateCustomerStatus cid s st))"
  unfolding storeInv_def updateCustomerStatus_def
  by (auto split: option.splits intro!: list_all_mutateFirst)

lemma storeInv_updateOrderItemSize:
  "storeInv st \<Longrightarrow> storeInv (snd (updateOrderItemSize cid oid iid s st))"
  unfolding storeInv_def updateOrderItemSize_def
  by (auto split: option.splits intro!: list_all_mutateFirst orderInv_item_update)

lemma storeInv_getCustomerById:
  "storeInv st \<Longrightarrow> storeInv (snd (getCustomerById getTime draw i st))"
  by (auto simp: getCustomerById_def Let_def storeInv_def orders_createCustomerWithId
      orderInv_generateOrders split: option.splits)

lemma storeInv_handlerCustomers:
  "storeInv st \<Longrightarrow> storeInv (snd (handlerCustomers req st))"
  using storeInv_updateCustomerStatus[of st]
  by (auto simp: handlerCustomers_def handlerPatchCustomers_def Let_def
      split: option.splits prod.splits bool.splits) (metis snd_conv)+

lemma storeInv_handlerOrders:
  assumes "storeInv st"
  shows "storeInv (snd (handlerOrders getTime draw i req st))"
proof -
  have get: "storeInv (snd (handlerGetOrders getTime draw i st))"
    using storeInv_getCustomerById[OF assms, of getTime draw i]
    by (auto simp: handlerGetOrders_def split: prod.splits option.splits)
  have patch: "storeInv (snd (handlerPatchOrders getTime draw i b st))" for b
  proof -
    have "storeInv (snd (getCustomerById getTime draw i (snd (updateOrderItemSize i x y z st))))"
      for x y z
      by (intro storeInv_getCustomerById storeInv_updateOrderItemSize assms)
    moreover have "storeInv (snd (updateOrderItemSize i x y z st))" for x y z
      by (intro storeInv_updateOrderItemSize assms)
    ultimately show ?thesis
      using assms unfolding handlerPatchOrders_def Let_def
      by (auto split: option.splits prod.splits bool.splits) (metis snd_conv)+
  qed
  show ?thesis using get patch assms by (simp add: handlerOrders_def)
qed

lemma reachable_storeInv: "reachable getTime st \<Longrightarrow> storeInv st"
  by (induction rule: reachable.induct)
    (simp_all add: storeInv_generateMockCustomers storeInv_handlerCustomers storeInv_handlerOrders)

section \<open>Facts about lookups\<close>

lemma updateOrderItemSize_success:
  assumes "updateOrderItemSize customerId oid iid s st = (True, st')"
  shows "\<exists>i j k. i < length st \<and> j < length (orders (st ! i)) \<and>
            k < length (items (orders (st ! i) ! j)) \<and>
            find (\<lambda>c. idC c = customerId) st = Some (st ! i) \<and>
            find (\<lambda>order. strictEq (orderId order) oid) (orders (st ! i)) = Some (orders (st ! i) ! j) \<and>
            find (\<lambda>item. strictEq (orderItemId item) iid) (items (orders (st ! i) ! j))
              = Some (items (orders (st ! i) ! j) ! k) \<and>
            st' = st[i := (st ! i)\<lparr>orders := (orders (st ! i))[j := (orders (st ! i) ! j)
                     \<lparr>items := (items (orders (st ! i) ! j))[k := (items (orders (st ! i) ! j) ! k)
                        \<lparr>customSize := s\<rparr>]\<rparr>]\<rparr>]"
proof -
  from assms obtain c where c: "find (\<lambda>c. idC c = customerId) st = Some c"
    by (auto simp: updateOrderItemSize_def split: option.splits)
  from assms c obtain order where
    order: "find (\<lambda>order. strictEq (orderId order) oid) (orders c) = Some order"
    by (auto simp: updateOrderItemSize_def split: option.splits)
  from assms c order obtain item where
    item: "find (\<lambda>item. strictEq (orderItemId item) iid) (items order) = Some item"
    by (auto simp: updateOrderItemSize_def split: option.splits)
  let ?fi = "\<lambda>item. item\<lparr>customSize := s\<rparr>"
  let ?fo = "\<lambda>order. order\<lparr>items :=
               mutateFirst (\<lambda>item. strictEq (orderItemId item) iid) ?fi (items order)\<rparr>"
  let ?fc = "\<lambda>c. c\<lparr>orders :=
               mutateFirst (\<lambda>order. strictEq (orderId order) oid) ?fo (orders c)\<rparr>"
  from mutateFirst_nth[OF c, of ?fc] obtain i where
    i: "i < length st" "st ! i = c"
       "mutateFirst (\<lambda>c. idC c = customerId) ?fc st = st[i := ?fc c]" by blast
  from mutateFirst_nth[OF order, of ?fo] obtain j where
    j: "j < length (orders c)" "orders c ! j = order"
       "mutateFirst (\<lambda>order. strictEq (orderId order) oid) ?fo (orders c) = (orders c)[j := ?fo order]"
    by blast
  from mutateFirst_nth[OF item, of ?fi] obtain k where
    k: "k < length (items order)" "items order ! k = item"
       "mutateFirst (\<lambda>item. strictEq (orderItemId item) iid) ?fi (items order)
          = (items order)[k := ?fi item]"
    by blast
  have "st' = mutateFirst (\<lambda>c. idC c = customerId) ?fc st"
    using assms c order item by (simp add: updateOrderItemSize_def)
  then have "st' = st[i := c\<lparr>orders := (orders c)[j := order\<lparr>items := (items order)[k := ?fi item]\<rparr>]\<rparr>]"
    by (simp add: i(3) j(3) k(3))
  with i j k c order item show ?thesis
    by (intro exI[of _ i] exI[of _ j] exI[of _ k]) simp
qed

lemma getCustomerById_found:
  "\<exists>customer. fst (getCustomerById getTime draw i st) = Some customer \<and> idC customer = i \<and>
     find (\<lambda>c. idC c = i) (snd (getCustomerById getTime draw i st)) = Some customer"
proof (cases "find (\<lambda>c. idC c = i) st")
  case None
  then have "find (\<lambda>c. idC c = i) (st @ [c]) = find (\<lambda>c. idC c = i) [c]" for c
    by (induction st) (auto split: if_splits)
  with None show ?thesis
    by (simp add: getCustomerById_def Let_def createCustomerWithId_def)
next
  case (Some c)
  then have "idC c = i" by (auto simp: find_Some_iff)
  with Some show ?thesis by (simp add: getCustomerById_def)
qed

lemma idC_mutateFirst_orders:
  "map idC (mutateFirst P (\<lambda>c. c\<lparr>orders := g c\<rparr>) xs) = map idC xs"
  by (induction xs) auto

lemma updateOrderItemSize_keeps_ids:
  "map idC (snd (updateOrderItemSize i oid iid s st)) = map idC st"
  by (auto simp: updateOrderItemSize_def idC_mutateFirst_orders split: option.splits)

lemma find_by_id_iff: "find (\<lambda>c. idC c = i) st = None \<longleftrightarrow> i \<notin> set (map idC st)"
  by (auto simp: find_None_iff)

lemma getCustomerById_after_update:
  assumes "updateOrderItemSize i oid iid s st = (True, st')"
  shows "snd (getCustomerById getTime draw i st') = st'"
proof -
  from assms have "find (\<lambda>c. idC c = i) st \<noteq> None"
    by (auto simp: updateOrderItemSize_def split: option.splits)
  then have "i \<in> set (map idC st)" by (simp add: find_by_id_iff)
  then have "i \<in> set (map idC st')"
    using updateOrderItemSize_keeps_ids[of i oid iid s st] assms by simp
  then have "find (\<lambda>c. idC c = i) st' \<noteq> None" by (simp add: find_by_id_iff)
  then show ?thesis by (auto simp: getCustomerById_def)
qed

section \<open>The claims\<close>

text \<open>
  C1. The comparator of the sort step of GET /customers is consistent for every string
  \<open>sortBy\<close> and every \<open>order\<close>, so the order \<open>Array.prototype.sort\<close> produces is
  defined: the step returns a permutation of its input that is ordered by the comparator
  and keeps every group of tied customers in input order (a stable sort). For each of the
  eight summary fields the comparator is the comparison of that field of the two
  customers as the specification words it: strings without regard to case, numbers by
  value, \<open>order = desc\<close> inverting the result, and a customer without \<open>lastOrderDate\<close>
  after every customer with one whatever \<open>order\<close> is. So the result is ordered by that
  field, with ties in input order and \<open>null\<close> last.
\<close>

theorem sort_step_stable_nulls_last:
  "consistent (compareFn k ord) \<and>
   mset (sortStep (QStr k) ord cs) = mset cs \<and>
   sorted_wrt (\<lambda>a b. compareFn k ord a b \<le> 0) (sortStep (QStr k) ord cs) \<and>
   (\<forall>c. filter (\<lambda>b. compareFn k ord c b = 0) (sortStep (QStr k) ord cs)
          = filter (\<lambda>b. compareFn k ord c b = 0) cs) \<and>
   sorted_wrt (\<lambda>a b. getProp a k = PNull \<longrightarrow> getProp b k = PNull) (sortStep (QStr k) ord cs) \<and>
   (\<forall>a b. getProp a k = PNull \<and> getProp b k \<noteq> PNull \<longrightarrow>
      compareFn k ord a b = 1 \<and> compareFn k ord b a = - 1) \<and>
   (\<forall>a b. getProp a k = PNull \<and> getProp b k = PNull \<longrightarrow> compareFn k ord a b = 0) \<and>
   (\<forall>a b s t. getProp a k = PStr s \<and> getProp b k = PStr t \<longrightarrow>
      compareFn k ord a b =
        (if ord = QStr ''desc'' then - 1 else 1) *
        (if toLowerCase s < toLowerCase t then - 1
         else if toLowerCase t < toLowerCase s then 1 else 0)) \<and>
   (\<forall>a b x y. getProp a k = PNum x \<and> getProp b k = PNum y \<longrightarrow>
      compareFn k ord a b =
        (if ord = QStr ''desc'' then - 1 else 1) * (if x < y then - 1 else if y < x then 1 else 0)) \<and>
   (k \<in> set summaryFields \<longrightarrow>
      (\<forall>a b. compareFn k ord a b = specCompare k ord a b) \<and>
      sorted_wrt (\<lambda>a b. specCompare k ord a b \<le> 0) (sortStep (QStr k) ord cs) \<and>
      (\<forall>c. filter (\<lambda>b. specCompare k ord c b = 0) (sortStep (QStr k) ord cs)
             = filter (\<lambda>b. specCompare k ord c b = 0) cs)) \<and>
   sorted_wrt (\<lambda>a b. lastOrderDate a = None \<longrightarrow> lastOrderDate b = None)
     (sortStep (QStr ''lastOrderDate'') ord cs)"
proof -
  have s: "sortStep (QStr k) ord cs = arraySort (compareFn k ord) cs"
    by (simp add: sortStep_def)
  have field: "(\<forall>a b. compareFn k ord a b = specCompare k ord a b) \<and>
      sorted_wrt (\<lambda>a b. specCompare k ord a b \<le> 0) (arraySort (compareFn k ord) cs) \<and>
      (\<forall>c. filter (\<lambda>b. specCompare k ord c b = 0) (arraySort (compareFn k ord) cs)
             = filter (\<lambda>b. specCompare k ord c b = 0) cs)"
    if "k \<in> set summaryFields"
  proof -
    have e: "compareFn k ord = specCompare k ord"
      by (intro ext) (rule compareFn_by_field[OF that])
    show ?thesis
      using sorted_arraySort[OF compareFn_consistent, of k ord cs] stable_compareFn[of k ord _ cs]
      unfolding e by simp
  qed
  have sorted: "sorted_wrt (\<lambda>a b. compareFn k ord a b \<le> 0) (arraySort (compareFn k ord) cs)"
    by (rule sorted_arraySort[OF compareFn_consistent])
  show ?thesis
    unfolding s
    using compareFn_consistent[of k ord]
      mset_arraySort[of "compareFn k ord" cs] sorted nulls_last_sorted[OF sorted]
      stable_compareFn[of k ord _ cs] compareFn_null_left[of _ k _ ord]
      compareFn_null_right[of _ k _ ord] compareFn_null_both[of _ k _ ord]
      compareFn_strings[of _ k _ _ _ ord] compareFn_numbers[of _ k _ _ _ ord]
      field nulls_last_by_field[of ord cs]
    by (intro conjI allI impI; (elim conjE)?) simp_all
qed

theorem sort_step_stable_nulls_last_witness:
  "mset (sortStep (QStr ''name'') (QStr ''asc'') sampleStore) = mset sampleStore \<and>
   sortStep (QStr ''name'') (QStr ''asc'') sampleStore = [cust1, cust3, cust2] \<and>
   filter (\<lambda>b. compareFn ''name'' (QStr ''asc'') cust1 b = 0)
     (sortStep (QStr ''name'') (QStr ''asc'') sampleStore) = [cust1, cust3] \<and>
   getProp cust2 ''lastOrderDate'' = PNull \<and>
   getProp cust1 ''lastOrderDate'' = PStr ''2025-03-01'' \<and>
   compareFn ''lastOrderDate'' (QStr ''desc'') cust2 cust1 = 1 \<and>
   compareFn ''lastOrderDate'' (QStr ''asc'') cust2 cust1 = 1 \<and>
   sortStep (QStr ''lastOrderDate'') (QStr ''desc'') [cust2, cust1, cust3] = [cust1, cust2, cust3] \<and>
   sortStep (QStr ''lastOrderDate'') (QStr ''asc'') [cust2, cust1, cust3] = [cust1, cust2, cust3] \<and>
   ''revenue'' \<in> set summaryFields \<and>
   compareFn ''revenue'' (QStr ''desc'') cust1 cust2
     = specCompare ''revenue'' (QStr ''desc'') cust1 cust2 \<and>
   specCompare ''revenue'' (QStr ''desc'') cust1 cust2 = - 1 \<and>
   sortStep (QStr ''revenue'') (QStr ''desc'') [cust2, cust1] = [cust1, cust2] \<and>
   sortStep (QStr ''revenue'') (QStr ''asc'') [cust1, cust2] = [cust2, cust1] \<and>
   sortStep (QStr ''email'') (QStr ''asc'') sampleStore = [cust3, cust1, cust2] \<and>
   sortStep (QStr ''orderCount'') (QStr ''desc'') sampleStore = [cust1, cust2, cust3]"
proof -
  note byName = sort_step_stable_nulls_last[of "''name''" "QStr ''asc''" sampleStore]
  from byName have perm: "mset (sortStep (QStr ''name'') (QStr ''asc'') sampleStore) = mset sampleStore"
    by blast
  from byName have
    "filter (\<lambda>b. compareFn ''name'' (QStr ''asc'') cust1 b = 0)
       (sortStep (QStr ''name'') (QStr ''asc'') sampleStore)
     = filter (\<lambda>b. compareFn ''name'' (QStr ''asc'') cust1 b = 0) sampleStore"
    by blast
  moreover have "filter (\<lambda>b. compareFn ''name'' (QStr ''asc'') cust1 b = 0) sampleStore = [cust1, cust3]"
    by code_simp
  ultimately have ties: "filter (\<lambda>b. compareFn ''name'' (QStr ''asc'') cust1 b = 0)
     (sortStep (QStr ''name'') (QStr ''asc'') sampleStore) = [cust1, cust3]"
    by simp
  have n2: "getProp cust2 ''lastOrderDate'' = PNull"
    and n1: "getProp cust1 ''lastOrderDate'' = PStr ''2025-03-01''"
    by code_simp+
  from n1 have nn: "getProp cust1 ''lastOrderDate'' \<noteq> PNull" by simp
  from sort_step_stable_nulls_last[of "''lastOrderDate''" "QStr ''desc''" sampleStore] n2 nn
  have d: "compareFn ''lastOrderDate'' (QStr ''desc'') cust2 cust1 = 1" by blast
  from sort_step_stable_nulls_last[of "''lastOrderDate''" "QStr ''asc''" sampleStore] n2 nn
  have a: "compareFn ''lastOrderDate'' (QStr ''asc'') cust2 cust1 = 1" by blast
  have s: "sortStep (QStr ''name'') (QStr ''asc'') sampleStore = [cust1, cust3, cust2]"
    by code_simp
  have sd: "sortStep (QStr ''lastOrderDate'') (QStr ''desc'') [cust2, cust1, cust3] = [cust1, cust2, cust3]"
    by code_simp
  have sa: "sortStep (QStr ''lastOrderDate'') (QStr ''asc'') [cust2, cust1, cust3] = [cust1, cust2, cust3]"
    by code_simp
  have rf: "''revenue'' \<in> set summaryFields" by code_simp
  from sort_step_stable_nulls_last[of "''revenue''" "QStr ''desc''" "[cust2, cust1]"] rf
  have rc: "compareFn ''revenue'' (QStr ''desc'') cust1 cust2
     = specCompare ''revenue'' (QStr ''desc'') cust1 cust2"
    by blast
  have rv: "specCompare ''revenue'' (QStr ''desc'') cust1 cust2 = - 1" by code_simp
  have rd: "sortStep (QStr ''revenue'') (QStr ''desc'') [cust2, cust1] = [cust1, cust2]"
    and ra: "sortStep (QStr ''revenue'') (QStr ''asc'') [cust1, cust2] = [cust2, cust1]"
    and em: "sortStep (QStr ''email'') (QStr ''asc'') sampleStore = [cust3, cust1, cust2]"
    and oc: "sortStep (QStr ''orderCount'') (QStr ''desc'') sampleStore = [cust1, cust2, cust3]"
    by code_simp+
  show ?thesis using perm s ties n2 n1 d a sd sa rf rc rv rd ra em oc by (intro conjI)
qed

text \<open>
  C2. For a non-empty \<open>search\<close> string the filter step keeps exactly the customers whose
  name or email contains it as a case-insensitive substring, in their order, so every
  summary of the response has such a name or email; for the empty string, and when the
  parameter is absent, the filter returns the whole collection.
\<close>

theorem filter_step_case_insensitive:
  "(s \<noteq> [] \<longrightarrow>
      filterStep (QStr s) cs = filter (\<lambda>c. ciContains (name c) s \<or> ciContains (email c) s) cs) \<and>
   filterStep (QStr []) cs = cs \<and>
   (s \<noteq> [] \<and> q ''search'' = Some (QStr s) \<and>
    handlerGetCustomers q cs = (200, CustomersPage summaries pagination) \<longrightarrow>
      (\<forall>x \<in> set summaries. ciContains (name x) s \<or> ciContains (email x) s)) \<and>
   (q ''search'' = None \<or> q ''search'' = Some (QStr []) \<longrightarrow>
      filterStep (queryOr q ''search'' []) cs = cs)"
proof -
  have a: "filterStep (QStr s) cs = filter (\<lambda>c. ciContains (name c) s \<or> ciContains (email c) s) cs"
    if "s \<noteq> []"
    using that by (simp add: filterStep_def Let_def matchesSearch_iff[abs_def])
  have b: "filterStep (QStr []) cs = cs" by (simp add: filterStep_def)
  have c: "\<forall>x \<in> set summaries. ciContains (name x) s \<or> ciContains (email x) s"
    if "s \<noteq> []" "q ''search'' = Some (QStr s)"
      "handlerGetCustomers q cs = (200, CustomersPage summaries pagination)"
  proof
    fix x assume x: "x \<in> set summaries"
    let ?fs = "sortStep (queryOr q ''sortBy'' ''name'') (queryOr q ''order'' ''asc'')
                 (filterStep (QStr s) cs)"
    from that(2,3) obtain st en where
      "summaries = map getCustomerSummary (slice ?fs st en)"
      by (auto simp: handlerGetCustomers_def Let_def queryOr_def)
    with x obtain c where c: "c \<in> set (slice ?fs st en)" "x = getCustomerSummary c" by auto
    from c(1) have "c \<in> set (filterStep (QStr s) cs)"
      using set_slice[of ?fs st en] by (auto simp: set_sortStep)
    with a[OF that(1)] have "ciContains (name c) s \<or> ciContains (email c) s" by simp
    moreover have "name x = name c" "email x = email c"
      using c(2) by (simp_all add: getCustomerSummary_def CustomerSummary.truncate_def)
    ultimately show "ciContains (name x) s \<or> ciContains (email x) s" by simp
  qed
  have d: "filterStep (queryOr q ''search'' []) cs = cs"
    if "q ''search'' = None \<or> q ''search'' = Some (QStr [])"
    using that b by (auto simp: queryOr_def)
  show ?thesis using a b c d by blast
qed

theorem filter_step_case_insensitive_witness:
  "''ALI'' \<noteq> [] \<and>
   filterStep (QStr ''ALI'') sampleStore =
     filter (\<lambda>c. ciContains (name c) ''ALI'' \<or> ciContains (email c) ''ALI'') sampleStore \<and>
   filterStep (QStr ''ALI'') sampleStore = [cust1, cust3] \<and>
   ciContains (name cust1) ''ALI'' \<and>
   \<not> ciContains (name cust2) ''ALI'' \<and> \<not> ciContains (email cust2) ''ALI'' \<and>
   filterStep (QStr ''bob@'') sampleStore = [cust2] \<and>
   filterStep (QStr []) sampleStore = sampleStore"
proof -
  have ne: "''ALI'' \<noteq> []" by simp
  note t = filter_step_case_insensitive[of "''ALI''" sampleStore]
  from t ne have a: "filterStep (QStr ''ALI'') sampleStore =
     filter (\<lambda>c. ciContains (name c) ''ALI'' \<or> ciContains (email c) ''ALI'') sampleStore"
    by blast
  from t have e: "filterStep (QStr []) sampleStore = sampleStore" by blast
  have b: "filterStep (QStr ''ALI'') sampleStore = [cust1, cust3]" by code_simp
  have c: "filterStep (QStr ''bob@'') sampleStore = [cust2]" by code_simp
  have m: "ciContains (name cust1) ''ALI''"
    unfolding stringIncludes_toLowerCase[symmetric] by code_simp
  have n: "\<not> ciContains (name cust2) ''ALI''" "\<not> ciContains (email cust2) ''ALI''"
    unfolding stringIncludes_toLowerCase[symmetric] by code_simp+
  show ?thesis using ne a b m n c e by (intro conjI)
qed

text \<open>
  C3 (as amended). For \<open>page \<ge> 1\<close> and \<open>limit \<ge> 1\<close>, where \<open>parseInt\<close> reads the limit
  as a finite number, the response carries the summaries of the slice
  \<open>[(page-1)*limit, (page-1)*limit + limit)\<close> of the filtered and sorted collection,
  also when a parameter or an index is rounded above \<open>2^53\<close>; \<open>totalItems\<close> is the
  number of customers after filtering, and \<open>totalPages\<close> is \<open>ceil(totalItems / limit)\<close>,
  the least number of pages that holds them all. A page beyond the end gives status 200
  with an empty \<open>customers\<close> array. \<open>currentPage\<close> and \<open>itemsPerPage\<close> are the parsed
  numbers as serialised.
\<close>

theorem pagination_slice_for_finite_limit:
  assumes "parseIntExact (qToString (queryOr q ''page'' ''1'')) = Some p" and "1 \<le> p"
    and "parseIntExact (qToString (queryOr q ''limit'' ''10'')) = Some l" and "1 \<le> l"
    and "parseInt10 (qToString (queryOr q ''limit'' ''10'')) \<noteq> PosInf"
    and "length mockCustomers < 2 ^ 32"
  shows "\<exists>tp. handlerGetCustomers q mockCustomers =
           (200, CustomersPage
              (map getCustomerSummary
                 (take (nat l) (drop (nat ((p - 1) * l))
                    (sortStep (queryOr q ''sortBy'' ''name'') (queryOr q ''order'' ''asc'')
                       (filterStep (queryOr q ''search'' []) mockCustomers)))))
              \<lparr>currentPage = toJson (parseInt10 (qToString (queryOr q ''page'' ''1''))),
               totalPages = Some tp,
               totalItems = length (filterStep (queryOr q ''search'' []) mockCustomers),
               itemsPerPage = toJson (parseInt10 (qToString (queryOr q ''limit'' ''10'')))\<rparr>) \<and>
         tp = \<lceil>(of_nat (length (filterStep (queryOr q ''search'' []) mockCustomers)) :: rat) / of_int l\<rceil> \<and>
         (tp - 1) * l < int (length (filterStep (queryOr q ''search'' []) mockCustomers)) \<and>
         int (length (filterStep (queryOr q ''search'' []) mockCustomers)) \<le> tp * l \<and>
         (length (filterStep (queryOr q ''search'' []) mockCustomers) \<le> nat ((p - 1) * l) \<longrightarrow>
            handlerGetCustomers q mockCustomers =
              (200, CustomersPage []
                 \<lparr>currentPage = toJson (parseInt10 (qToString (queryOr q ''page'' ''1''))),
                  totalPages = Some tp,
                  totalItems = length (filterStep (queryOr q ''search'' []) mockCustomers),
                  itemsPerPage = toJson (parseInt10 (qToString (queryOr q ''limit'' ''10'')))\<rparr>))"
proof -
  let ?f = "filterStep (queryOr q ''search'' []) mockCustomers"
  let ?fs = "sortStep (queryOr q ''sortBy'' ''name'') (queryOr q ''order'' ''asc'') ?f"
  let ?tp = "\<lceil>(of_nat (length ?f) :: rat) / of_int l\<rceil>"
  have pn: "parseInt10 (qToString (queryOr q ''page'' ''1'')) = roundToDouble p"
    and ln: "parseInt10 (qToString (queryOr q ''limit'' ''10'')) = roundToDouble l"
    by (simp_all add: parseInt10_def assms(1,3))
  from assms(5) have "roundToDouble l \<noteq> PosInf" by (simp add: ln)
  from finite_limit[OF assms(4) this] obtain L where
    L: "roundToDouble l = Fin L" "L = l \<or> (2 ^ 53 \<le> l \<and> 2 ^ 53 \<le> L)" by blast
  have "length ?f < 2 ^ 32" using length_filterStep[of "queryOr q ''search'' []" mockCustomers] assms(6)
    by linarith
  then have len32: "int (length ?f) < 2 ^ 32" by (metis of_nat_less_numeral_power_cancel_iff)
  have "(2::int) ^ 32 \<le> 2 ^ 53 - 1" by simp
  with len32 have len: "int (length ?fs) \<le> 2 ^ 53 - 1" by (simp add: length_sortStep)
  have sl: "slice ?fs (jsMul (jsSub (roundToDouble p) (Fin 1)) (Fin L))
              (jsAdd (jsMul (jsSub (roundToDouble p) (Fin 1)) (Fin L)) (Fin L))
            = take (nat l) (drop (nat ((p - 1) * l)) ?fs)"
    by (rule slice_of_page[OF assms(2,4) L len])
  have L0: "L \<noteq> 0" using L(2) assms(4) by auto
  have tpL: "\<lceil>(of_nat (length ?f) :: rat) / of_int L\<rceil> = ?tp"
  proof -
    from L(2) show ?thesis
    proof
      assume "L = l"
      then show ?thesis by simp
    next
      assume b: "2 ^ 53 \<le> l \<and> 2 ^ 53 \<le> L"
      have "(2::int) ^ 32 \<le> 2 ^ 53" by simp
      with len32 b have "int (length ?f) < l" "int (length ?f) < L" by linarith+
      then show ?thesis by (simp add: ceiling_beyond)
    qed
  qed
  have h: "handlerGetCustomers q mockCustomers =
      (200, CustomersPage (map getCustomerSummary (take (nat l) (drop (nat ((p - 1) * l)) ?fs)))
         \<lparr>currentPage = toJson (parseInt10 (qToString (queryOr q ''page'' ''1''))),
          totalPages = Some ?tp, totalItems = length ?f,
          itemsPerPage = toJson (parseInt10 (qToString (queryOr q ''limit'' ''10'')))\<rparr>)"
    unfolding handlerGetCustomers_def Let_def pn ln L(1)
    by (simp add: totalPagesOf_def sl L0 tpL length_sortStep)
  have e: "take (nat l) (drop (nat ((p - 1) * l)) ?fs) = []" if "length ?f \<le> nat ((p - 1) * l)"
    using that by (simp add: length_sortStep)
  show ?thesis
    using h e ceiling_pages[OF assms(4), of "length ?f"] by (intro exI[of _ ?tp]) simp
qed

theorem pagination_slice_for_finite_limit_witness:
  "parseIntExact (qToString (queryOr sampleQuery ''page'' ''1'')) = Some 2 \<and>
   parseIntExact (qToString (queryOr sampleQuery ''limit'' ''10'')) = Some 2 \<and>
   parseInt10 (qToString (queryOr sampleQuery ''limit'' ''10'')) = Fin 2 \<and>
   handlerGetCustomers sampleQuery sampleStore =
     (200, CustomersPage [getCustomerSummary cust3]
        \<lparr>currentPage = Some 2, totalPages = Some 2, totalItems = 3, itemsPerPage = Some 2\<rparr>) \<and>
   handlerGetCustomers outOfRangeQuery sampleStore =
     (200, CustomersPage []
        \<lparr>currentPage = Some 9, totalPages = Some 2, totalItems = 3, itemsPerPage = Some 2\<rparr>) \<and>
   parseIntExact (qToString (queryOr roundedLimitQuery ''limit'' ''10'')) = Some 9007199254740993 \<and>
   parseInt10 (qToString (queryOr roundedLimitQuery ''limit'' ''10'')) = Fin 9007199254740992 \<and>
   handlerGetCustomers roundedLimitQuery sampleStore =
     (200, CustomersPage (map getCustomerSummary [cust1, cust3, cust2])
        \<lparr>currentPage = Some 1, totalPages = Some 1, totalItems = 3,
         itemsPerPage = Some 9007199254740992\<rparr>)"
proof -
  have len: "length sampleStore < 2 ^ 32" by (simp add: sampleStore_def)
  have f: "filterStep (queryOr sampleQuery ''search'' []) sampleStore = sampleStore"
    "filterStep (queryOr roundedLimitQuery ''search'' []) sampleStore = sampleStore"
    by code_simp+
  have sd: "sortStep (queryOr sampleQuery ''sortBy'' ''name'') (queryOr sampleQuery ''order'' ''asc'')
              sampleStore = [cust2, cust1, cust3]"
    by code_simp
  have sa: "sortStep (queryOr roundedLimitQuery ''sortBy'' ''name'')
              (queryOr roundedLimitQuery ''order'' ''asc'') sampleStore = [cust1, cust3, cust2]"
    by code_simp
  have l3: "length sampleStore = 3" by (simp add: sampleStore_def)
  have p: "parseIntExact (qToString (queryOr sampleQuery ''page'' ''1'')) = Some 2"
    and l: "parseIntExact (qToString (queryOr sampleQuery ''limit'' ''10'')) = Some 2"
    and ln: "parseInt10 (qToString (queryOr sampleQuery ''limit'' ''10'')) = Fin 2"
    and pn: "parseInt10 (qToString (queryOr sampleQuery ''page'' ''1'')) = Fin 2"
    by code_simp+
  from pagination_slice_for_finite_limit[OF p _ l _ _ len] ln
  obtain tp where t: "handlerGetCustomers sampleQuery sampleStore =
      (200, CustomersPage
         (map getCustomerSummary (take (nat 2) (drop (nat ((2 - 1) * 2)) [cust2, cust1, cust3])))
         \<lparr>currentPage = toJson (Fin 2), totalPages = Some tp, totalItems = 3,
          itemsPerPage = toJson (Fin 2)\<rparr>)"
    "tp = \<lceil>(of_nat 3 :: rat) / of_int 2\<rceil>"
    by (auto simp: f sd l3 pn)
  have "\<lceil>(of_nat 3 :: rat) / of_int 2\<rceil> = 2" by (rule ceiling_unique) simp_all
  with t(2) have "tp = 2" by simp
  with t(1) have r: "handlerGetCustomers sampleQuery sampleStore =
     (200, CustomersPage [getCustomerSummary cust3]
        \<lparr>currentPage = Some 2, totalPages = Some 2, totalItems = 3, itemsPerPage = Some 2\<rparr>)"
    by simp
  have o: "handlerGetCustomers outOfRangeQuery sampleStore =
     (200, CustomersPage []
        \<lparr>currentPage = Some 9, totalPages = Some 2, totalItems = 3, itemsPerPage = Some 2\<rparr>)"
    by code_simp
  have rp: "parseIntExact (qToString (queryOr roundedLimitQuery ''page'' ''1'')) = Some 1"
    and rl: "parseIntExact (qToString (queryOr roundedLimitQuery ''limit'' ''10'')) = Some 9007199254740993"
    and rln: "parseInt10 (qToString (queryOr roundedLimitQuery ''limit'' ''10'')) = Fin 9007199254740992"
    and rpn: "parseInt10 (qToString (queryOr roundedLimitQuery ''page'' ''1'')) = Fin 1"
    by code_simp+
  from pagination_slice_for_finite_limit[OF rp _ rl _ _ len] rln
  obtain tp' where t': "handlerGetCustomers roundedLimitQuery sampleStore =
      (200, CustomersPage
         (map getCustomerSummary
            (take (nat 9007199254740993) (drop (nat ((1 - 1) * 9007199254740993)) [cust1, cust3, cust2])))
         \<lparr>currentPage = toJson (Fin 1), totalPages = Some tp', totalItems = 3,
          itemsPerPage = toJson (Fin 9007199254740992)\<rparr>)"
    "tp' = \<lceil>(of_nat 3 :: rat) / of_int 9007199254740993\<rceil>"
    by (auto simp: f sa l3 rpn)
  have "int 3 < 9007199254740993" by simp
  with t'(2) have "tp' = 1" by (simp only: ceiling_beyond) simp
  with t'(1) have rr: "handlerGetCustomers roundedLimitQuery sampleStore =
     (200, CustomersPage (map getCustomerSummary [cust1, cust3, cust2])
        \<lparr>currentPage = Some 1, totalPages = Some 1, totalItems = 3,
         itemsPerPage = Some 9007199254740992\<rparr>)"
    by simp
  show ?thesis using p l ln r o rl rln rr by (intro conjI)
qed

text \<open>
  The claim C3 as it was stated fails at a limit of 310 digits: \<open>parseInt\<close> gives
  \<open>Infinity\<close>, the start index \<open>0 * Infinity\<close> is \<open>NaN\<close>, and the handler answers with no
  customer and zero pages, where the slice \<open>[0, limit)\<close> holds all three customers and
  \<open>ceil(3 / limit)\<close> is one.
\<close>

theorem pagination_infinite_limit_empty_page:
  "parseIntExact (qToString (queryOr hugeLimitQuery ''page'' ''1'')) = Some 1 \<and>
   parseIntExact (qToString (queryOr hugeLimitQuery ''limit'' ''10'')) = Some (10 ^ 310 - 1) \<and>
   parseInt10 (qToString (queryOr hugeLimitQuery ''limit'' ''10'')) = PosInf \<and>
   handlerGetCustomers hugeLimitQuery sampleStore =
     (200, CustomersPage []
        \<lparr>currentPage = Some 1, totalPages = Some 0, totalItems = 3, itemsPerPage = None\<rparr>) \<and>
   take (nat (10 ^ 310 - 1)) (drop (nat ((1 - 1) * (10 ^ 310 - 1)))
     (sortStep (queryOr hugeLimitQuery ''sortBy'' ''name'') (queryOr hugeLimitQuery ''order'' ''asc'')
        (filterStep (queryOr hugeLimitQuery ''search'' []) sampleStore))) = [cust1, cust3, cust2] \<and>
   \<lceil>(of_nat (length (filterStep (queryOr hugeLimitQuery ''search'' []) sampleStore)) :: rat)
      / of_int (10 ^ 310 - 1)\<rceil> = 1"
proof -
  have qs: "qToString (queryOr hugeLimitQuery ''limit'' ''10'') = hugeLimit"
    "qToString (queryOr hugeLimitQuery ''page'' ''1'') = ''1''"
    by (simp_all add: hugeLimitQuery_def queryOr_def)
  have q2: "queryOr hugeLimitQuery ''sortBy'' ''name'' = QStr ''name''"
    "queryOr hugeLimitQuery ''order'' ''asc'' = QStr ''asc''"
    "queryOr hugeLimitQuery ''search'' [] = QStr []"
    by (simp_all add: hugeLimitQuery_def queryOr_def)
  have p: "parseIntExact ''1'' = Some 1" and pn: "parseInt10 ''1'' = Fin 1" by code_simp+
  have l: "parseIntExact hugeLimit = Some (10 ^ 310 - 1)" by code_simp
  have big: "(2::int) ^ 1024 \<le> 10 ^ 310 - 1" by simp
  have ln: "parseInt10 hugeLimit = PosInf"
    by (simp only: parseInt10_def l option.case roundToDouble_overflow[OF big])
  have f: "filterStep (QStr []) sampleStore = sampleStore" by (simp add: filterStep_def)
  have s: "sortStep (QStr ''name'') (QStr ''asc'') sampleStore = [cust1, cust3, cust2]"
    by code_simp
  have z: "roundToDouble 0 = Fin 0" by code_simp
  have start: "jsMul (jsSub (Fin 1) (Fin 1)) PosInf = NaN"
    by (simp add: jsSub_def z)
  have h: "handlerGetCustomers hugeLimitQuery sampleStore =
     (200, CustomersPage []
        \<lparr>currentPage = Some 1, totalPages = Some 0, totalItems = 3, itemsPerPage = None\<rparr>)"
    unfolding handlerGetCustomers_def Let_def qs q2 pn ln f s start
    by (simp add: slice_def relativeIndex_def totalPagesOf_def)
  have t: "take (nat (10 ^ 310 - 1)) (drop (nat ((1 - 1) * (10 ^ 310 - 1))) [cust1, cust3, cust2])
             = [cust1, cust3, cust2]"
    by simp
  have "int 3 < 10 ^ 310 - 1" by simp
  then have c: "\<lceil>(of_nat 3 :: rat) / of_int (10 ^ 310 - 1)\<rceil> = 1"
    by (simp only: ceiling_beyond) simp
  have l3: "length sampleStore = 3" by (simp add: sampleStore_def)
  show ?thesis
    unfolding qs q2 f s l3 using p l ln h[unfolded qs q2] t c by (intro conjI)
qed

text \<open>
  C4. A successful \<open>updateOrderItemSize\<close> changes the store at one place only: the first
  customer with the id, its first order with the order id, that order's first item with
  the item id, whose \<open>customSize\<close> becomes the new one. The item's other fields, the
  other items, the order's \<open>totalAmount\<close>, the other orders and the other customers are
  what they were; a failed call changes nothing. So the call keeps the invariant
  \<open>totalAmount = sum of items[].price\<close>, and the invariant holds in every state the
  process reaches from the generated store through any sequence of requests.
\<close>

theorem updateOrderItemSize_frame_and_invariant:
  "(updateOrderItemSize customerId oid iid s st = (True, st') \<longrightarrow>
      (\<exists>i j k. i < length st \<and> j < length (orders (st ! i)) \<and>
         k < length (items (orders (st ! i) ! j)) \<and>
         find (\<lambda>c. idC c = customerId) st = Some (st ! i) \<and>
         find (\<lambda>order. strictEq (orderId order) oid) (orders (st ! i))
           = Some (orders (st ! i) ! j) \<and>
         find (\<lambda>item. strictEq (orderItemId item) iid) (items (orders (st ! i) ! j))
           = Some (items (orders (st ! i) ! j) ! k) \<and>
         st' = st[i := (st ! i)\<lparr>orders := (orders (st ! i))[j := (orders (st ! i) ! j)
                  \<lparr>items := (items (orders (st ! i) ! j))[k := (items (orders (st ! i) ! j) ! k)
                     \<lparr>customSize := s\<rparr>]\<rparr>]\<rparr>]) \<and>
      (storeInv st \<longrightarrow> storeInv st')) \<and>
   (updateOrderItemSize customerId oid iid s st = (False, st') \<longrightarrow> st' = st) \<and>
   (reachable getTime st0 \<longrightarrow> storeInv st0)"
proof (intro conjI impI)
  assume u: "updateOrderItemSize customerId oid iid s st = (True, st')"
  then show "\<exists>i j k. i < length st \<and> j < length (orders (st ! i)) \<and>
         k < length (items (orders (st ! i) ! j)) \<and>
         find (\<lambda>c. idC c = customerId) st = Some (st ! i) \<and>
         find (\<lambda>order. strictEq (orderId order) oid) (orders (st ! i))
           = Some (orders (st ! i) ! j) \<and>
         find (\<lambda>item. strictEq (orderItemId item) iid) (items (orders (st ! i) ! j))
           = Some (items (orders (st ! i) ! j) ! k) \<and>
         st' = st[i := (st ! i)\<lparr>orders := (orders (st ! i))[j := (orders (st ! i) ! j)
                  \<lparr>items := (items (orders (st ! i) ! j))[k := (items (orders (st ! i) ! j) ! k)
                     \<lparr>customSize := s\<rparr>]\<rparr>]\<rparr>]"
    by (rule updateOrderItemSize_success)
  assume "storeInv st"
  then have "storeInv (snd (updateOrderItemSize customerId oid iid s st))"
    by (rule storeInv_updateOrderItemSize)
  with u show "storeInv st'" by simp
next
  assume "updateOrderItemSize customerId oid iid s st = (False, st')"
  then show "st' = st"
    by (auto simp: updateOrderItemSize_def split: option.splits)
next
  assume "reachable getTime st0"
  then show "storeInv st0" by (rule reachable_storeInv)
qed

theorem updateOrderItemSize_frame_and_invariant_witness:
  "updateOrderItemSize ''cust-1'' (JStr ''order-1'') (JStr ''item-2'') newSize sampleStore
     = (True, updatedStore) \<and>
   storeInv sampleStore \<and>
   storeInv updatedStore \<and>
   map (map totalAmount \<circ> orders) updatedStore = map (map totalAmount \<circ> orders) sampleStore \<and>
   updateOrderItemSize ''cust-1'' (JStr ''order-1'') (JStr ''item-7'') newSize sampleStore
     = (False, sampleStore) \<and>
   reachable (\<lambda>s. 0) (generateMockCustomers (\<lambda>s. 0) [sampleDraw] [] 96) \<and>
   storeInv (generateMockCustomers (\<lambda>s. 0) [sampleDraw] [] 96)"
proof -
  have u: "updateOrderItemSize ''cust-1'' (JStr ''order-1'') (JStr ''item-2'') newSize sampleStore
     = (True, updatedStore)"
    by code_simp
  have i: "storeInv sampleStore" by code_simp
  have r: "reachable (\<lambda>s. 0) (generateMockCustomers (\<lambda>s. 0) [sampleDraw] [] 96)"
    by (rule reachable.start)
  have f: "updateOrderItemSize ''cust-1'' (JStr ''order-1'') (JStr ''item-7'') newSize sampleStore
     = (False, sampleStore)"
    by code_simp
  have t: "map (map totalAmount \<circ> orders) updatedStore = map (map totalAmount \<circ> orders) sampleStore"
    by code_simp
  from updateOrderItemSize_frame_and_invariant[of "''cust-1''" "JStr ''order-1''" "JStr ''item-2''"
      newSize sampleStore updatedStore] u i
  have i': "storeInv updatedStore" by blast
  from updateOrderItemSize_frame_and_invariant[of _ _ _ _ _ _ "\<lambda>s. 0"
      "generateMockCustomers (\<lambda>s. 0) [sampleDraw] [] 96"] r
  have g: "storeInv (generateMockCustomers (\<lambda>s. 0) [sampleDraw] [] 96)" by blast
  show ?thesis using u i i' t f r g by (intro conjI)
qed

text \<open>
  C5 (as amended). PATCH /customers/{id}/orders answers 400 and leaves the store alone
  whenever \<open>chest\<close>, \<open>waist\<close> or \<open>hips\<close> of \<open>customSize\<close> is missing or is not a
  number. When \<open>orderId\<close> and \<open>orderItemId\<close> are present and all three are numbers, of
  any sign, the request goes to the store lookup: the status is 200 or 404 as
  \<open>updateOrderItemSize\<close> succeeds or fails, and the store is the one it returns.
\<close>

theorem patch_orders_checks_number_type_only:
  assumes "destructure body = Some field"
  shows "(typeof (getMember (field ''customSize'') ''chest'') \<noteq> TNumber \<or>
          typeof (getMember (field ''customSize'') ''waist'') \<noteq> TNumber \<or>
          typeof (getMember (field ''customSize'') ''hips'') \<noteq> TNumber \<longrightarrow>
            fst (fst (handlerPatchOrders getTime draw i body st)) = 400 \<and>
            snd (handlerPatchOrders getTime draw i body st) = st) \<and>
         (truthy (field ''orderId'') \<and> truthy (field ''orderItemId'') \<and>
          typeof (getMember (field ''customSize'') ''chest'') = TNumber \<and>
          typeof (getMember (field ''customSize'') ''waist'') = TNumber \<and>
          typeof (getMember (field ''customSize'') ''hips'') = TNumber \<longrightarrow>
            fst (fst (handlerPatchOrders getTime draw i body st)) =
              (if fst (updateOrderItemSize i (field ''orderId'') (field ''orderItemId'')
                         (toCustomSize (field ''customSize'')) st)
               then 200 else 404) \<and>
            snd (handlerPatchOrders getTime draw i body st) =
              snd (updateOrderItemSize i (field ''orderId'') (field ''orderItemId'')
                     (toCustomSize (field ''customSize'')) st))"
proof (intro conjI impI)
  assume "typeof (getMember (field ''customSize'') ''chest'') \<noteq> TNumber \<or>
          typeof (getMember (field ''customSize'') ''waist'') \<noteq> TNumber \<or>
          typeof (getMember (field ''customSize'') ''hips'') \<noteq> TNumber"
  then show "fst (fst (handlerPatchOrders getTime draw i body st)) = 400"
    and "snd (handlerPatchOrders getTime draw i body st) = st"
    using assms by (auto simp: handlerPatchOrders_def Let_def)
next
  assume h: "truthy (field ''orderId'') \<and> truthy (field ''orderItemId'') \<and>
          typeof (getMember (field ''customSize'') ''chest'') = TNumber \<and>
          typeof (getMember (field ''customSize'') ''waist'') = TNumber \<and>
          typeof (getMember (field ''customSize'') ''hips'') = TNumber"
  then have t: "truthy (field ''customSize'')"
    by (cases "field ''customSize''") simp_all
  let ?u = "updateOrderItemSize i (field ''orderId'') (field ''orderItemId'')
              (toCustomSize (field ''customSize'')) st"
  obtain ok st' where u: "?u = (ok, st')" by (cases ?u)
  have g: "snd (getCustomerById getTime draw i st') = st'" if ok
    using getCustomerById_after_update u that by simp
  show "fst (fst (handlerPatchOrders getTime draw i body st)) = (if fst ?u then 200 else 404)"
    using assms h t u
    by (auto simp: handlerPatchOrders_def Let_def split: prod.splits)
  show "snd (handlerPatchOrders getTime draw i body st) = snd ?u"
    using assms h t u g
    by (cases ok) (auto simp: handlerPatchOrders_def Let_def split: prod.splits)
qed

theorem patch_orders_checks_number_type_only_witness:
  "destructure stringSizeBody = Some (getMember stringSizeBody) \<and>
   typeof (getMember (getMember stringSizeBody ''customSize'') ''chest'') \<noteq> TNumber \<and>
   fst (fst (handlerPatchOrders (\<lambda>s. 0) sampleDraw ''cust-1'' stringSizeBody sampleStore)) = 400 \<and>
   snd (handlerPatchOrders (\<lambda>s. 0) sampleDraw ''cust-1'' stringSizeBody sampleStore) = sampleStore \<and>
   destructure validSizeBody = Some (getMember validSizeBody) \<and>
   fst (fst (handlerPatchOrders (\<lambda>s. 0) sampleDraw ''cust-1'' validSizeBody sampleStore)) = 200 \<and>
   snd (handlerPatchOrders (\<lambda>s. 0) sampleDraw ''cust-1'' validSizeBody sampleStore) = updatedStore \<and>
   fst (fst (handlerPatchOrders (\<lambda>s. 0) sampleDraw ''cust-2'' validSizeBody sampleStore)) = 404"
proof -
  have ds: "destructure stringSizeBody = Some (getMember stringSizeBody)"
    by (simp add: stringSizeBody_def)
  have ty: "typeof (getMember (getMember stringSizeBody ''customSize'') ''chest'') \<noteq> TNumber"
    by code_simp
  from patch_orders_checks_number_type_only[OF ds, of "\<lambda>s. 0" sampleDraw "''cust-1''" sampleStore] ty
  have bad: "fst (fst (handlerPatchOrders (\<lambda>s. 0) sampleDraw ''cust-1'' stringSizeBody sampleStore)) = 400 \<and>
      snd (handlerPatchOrders (\<lambda>s. 0) sampleDraw ''cust-1'' stringSizeBody sampleStore) = sampleStore"
    by blast
  have dv: "destructure validSizeBody = Some (getMember validSizeBody)"
    by (simp add: validSizeBody_def)
  have pre: "truthy (getMember validSizeBody ''orderId'') \<and>
      truthy (getMember validSizeBody ''orderItemId'') \<and>
      typeof (getMember (getMember validSizeBody ''customSize'') ''chest'') = TNumber \<and>
      typeof (getMember (getMember validSizeBody ''customSize'') ''waist'') = TNumber \<and>
      typeof (getMember (getMember validSizeBody ''customSize'') ''hips'') = TNumber"
    by code_simp
  have up: "updateOrderItemSize ''cust-1'' (getMember validSizeBody ''orderId'')
        (getMember validSizeBody ''orderItemId'')
        (toCustomSize (getMember validSizeBody ''customSize'')) sampleStore = (True, updatedStore)"
    by code_simp
  have up2: "fst (updateOrderItemSize ''cust-2'' (getMember validSizeBody ''orderId'')
        (getMember validSizeBody ''orderItemId'')
        (toCustomSize (getMember validSizeBody ''customSize'')) sampleStore) = False"
    by code_simp
  from patch_orders_checks_number_type_only[OF dv, of "\<lambda>s. 0" sampleDraw "''cust-1''" sampleStore]
    pre up
  have good: "fst (fst (handlerPatchOrders (\<lambda>s. 0) sampleDraw ''cust-1'' validSizeBody sampleStore)) = 200 \<and>
      snd (handlerPatchOrders (\<lambda>s. 0) sampleDraw ''cust-1'' validSizeBody sampleStore) = updatedStore"
    by simp
  from patch_orders_checks_number_type_only[OF dv, of "\<lambda>s. 0" sampleDraw "''cust-2''" sampleStore]
    pre up2
  have missing: "fst (fst (handlerPatchOrders (\<lambda>s. 0) sampleDraw ''cust-2'' validSizeBody sampleStore)) = 404"
    by simp
  show ?thesis using ds ty bad dv good missing by (intro conjI) blast+
qed

text \<open>
  The claim C5 as it was stated fails: a body whose \<open>chest\<close> is \<open>-1\<close> is not a valid
  size in the words of the specification, yet the handler answers 200 and stores it.
\<close>

theorem patch_orders_accepts_negative_size:
  "\<not> specValidSize (getMember negativeSizeBody ''customSize'') \<and>
   fst (handlerPatchOrders (\<lambda>s. 0) sampleDraw ''cust-1'' negativeSizeBody sampleStore) =
     (200, ItemUpdated ''Order item updated successfully''
             (Some (item1\<lparr>customSize := \<lparr>chest = - 1, waist = 32, hips = 38\<rparr>\<rparr>))) \<and>
   fst (fst (handlerPatchOrders (\<lambda>s. 0) sampleDraw ''cust-1'' negativeSizeBody sampleStore)) \<noteq> 400 \<and>
   snd (handlerPatchOrders (\<lambda>s. 0) sampleDraw ''cust-1'' negativeSizeBody sampleStore) =
     [cust1\<lparr>orders := [order1\<lparr>items :=
        [item1\<lparr>customSize := \<lparr>chest = - 1, waist = 32, hips = 38\<rparr>\<rparr>, item2]\<rparr>]\<rparr>, cust2, cust3]"
  by code_simp

text \<open>
  C6 (as amended). Sorting with \<open>desc\<close> gives the customers with a non-null value in the
  reverse of the order that sorting with \<open>asc\<close> gives on the reversed input, followed by
  the customers with a \<open>null\<close> value in input order; sorting with \<open>asc\<close> ends with the
  same customers in the same order. So customers with different values appear in exactly
  reversed order, while tied customers keep their input order in both directions. When no
  value is \<open>null\<close> and no two customers tie, the \<open>desc\<close> result is the reverse of the
  \<open>asc\<close> result.
\<close>

theorem sort_desc_mirrors_asc:
  "sortStep (QStr k) (QStr ''desc'') cs =
     rev (sortStep (QStr k) (QStr ''asc'') (rev (filter (\<lambda>c. getProp c k \<noteq> PNull) cs)))
       @ filter (\<lambda>c. getProp c k = PNull) cs \<and>
   sortStep (QStr k) (QStr ''asc'') cs =
     sortStep (QStr k) (QStr ''asc'') (filter (\<lambda>c. getProp c k \<noteq> PNull) cs)
       @ filter (\<lambda>c. getProp c k = PNull) cs \<and>
   ((\<forall>c \<in> set cs. getProp c k \<noteq> PNull) \<and>
    (\<forall>i j. i < j \<and> j < length cs \<longrightarrow> compareFn k (QStr ''asc'') (cs ! i) (cs ! j) \<noteq> 0) \<longrightarrow>
      sortStep (QStr k) (QStr ''desc'') cs = rev (sortStep (QStr k) (QStr ''asc'') cs))"
proof (intro conjI impI)
  show "sortStep (QStr k) (QStr ''desc'') cs =
     rev (sortStep (QStr k) (QStr ''asc'') (rev (filter (\<lambda>c. getProp c k \<noteq> PNull) cs)))
       @ filter (\<lambda>c. getProp c k = PNull) cs"
    by (rule sortStep_desc_rev)
  show "sortStep (QStr k) (QStr ''asc'') cs =
     sortStep (QStr k) (QStr ''asc'') (filter (\<lambda>c. getProp c k \<noteq> PNull) cs)
       @ filter (\<lambda>c. getProp c k = PNull) cs"
    by (rule sortStep_nulls_last)
next
  assume h: "(\<forall>c \<in> set cs. getProp c k \<noteq> PNull) \<and>
    (\<forall>i j. i < j \<and> j < length cs \<longrightarrow> compareFn k (QStr ''asc'') (cs ! i) (cs ! j) \<noteq> 0)"
  then have f: "filter (\<lambda>c. getProp c k \<noteq> PNull) cs = cs" "filter (\<lambda>c. getProp c k = PNull) cs = []"
    by (simp_all add: filter_empty_conv)
  from h have "sortStep (QStr k) (QStr ''asc'') (rev cs) = sortStep (QStr k) (QStr ''asc'') cs"
    by (intro sortStep_no_ties) simp
  with sortStep_desc_rev[of k cs] f
  show "sortStep (QStr k) (QStr ''desc'') cs = rev (sortStep (QStr k) (QStr ''asc'') cs)"
    by simp
qed

theorem sort_desc_mirrors_asc_witness:
  "sortStep (QStr ''name'') (QStr ''desc'') sampleStore =
     rev (sortStep (QStr ''name'') (QStr ''asc'')
            (rev (filter (\<lambda>c. getProp c ''name'' \<noteq> PNull) sampleStore)))
       @ filter (\<lambda>c. getProp c ''name'' = PNull) sampleStore \<and>
   sortStep (QStr ''lastOrderDate'') (QStr ''desc'') sampleStore =
     rev (sortStep (QStr ''lastOrderDate'') (QStr ''asc'')
            (rev (filter (\<lambda>c. getProp c ''lastOrderDate'' \<noteq> PNull) sampleStore)))
       @ filter (\<lambda>c. getProp c ''lastOrderDate'' = PNull) sampleStore \<and>
   filter (\<lambda>c. getProp c ''lastOrderDate'' = PNull) sampleStore = [cust2, cust3] \<and>
   sortStep (QStr ''name'') (QStr ''desc'') [cust1, cust2]
     = rev (sortStep (QStr ''name'') (QStr ''asc'') [cust1, cust2]) \<and>
   sortStep (QStr ''name'') (QStr ''desc'') [cust1, cust2] = [cust2, cust1]"
proof -
  from sort_desc_mirrors_asc[of "''name''" sampleStore]
  have a: "sortStep (QStr ''name'') (QStr ''desc'') sampleStore =
     rev (sortStep (QStr ''name'') (QStr ''asc'')
            (rev (filter (\<lambda>c. getProp c ''name'' \<noteq> PNull) sampleStore)))
       @ filter (\<lambda>c. getProp c ''name'' = PNull) sampleStore"
    by blast
  from sort_desc_mirrors_asc[of "''lastOrderDate''" sampleStore]
  have b: "sortStep (QStr ''lastOrderDate'') (QStr ''desc'') sampleStore =
     rev (sortStep (QStr ''lastOrderDate'') (QStr ''asc'')
            (rev (filter (\<lambda>c. getProp c ''lastOrderDate'' \<noteq> PNull) sampleStore)))
       @ filter (\<lambda>c. getProp c ''lastOrderDate'' = PNull) sampleStore"
    by blast
  have n: "filter (\<lambda>c. getProp c ''lastOrderDate'' = PNull) sampleStore = [cust2, cust3]"
    by code_simp
  have nn: "\<forall>c \<in> set [cust1, cust2]. getProp c ''name'' \<noteq> PNull"
    by code_simp
  have c12: "compareFn ''name'' (QStr ''asc'') cust1 cust2 \<noteq> 0" by code_simp
  have nt: "\<forall>i j. i < j \<and> j < length [cust1, cust2] \<longrightarrow>
      compareFn ''name'' (QStr ''asc'') ([cust1, cust2] ! i) ([cust1, cust2] ! j) \<noteq> 0"
  proof (intro allI impI)
    fix i j :: nat assume "i < j \<and> j < length [cust1, cust2]"
    then have "i = 0" "j = 1" by auto
    with c12 show "compareFn ''name'' (QStr ''asc'') ([cust1, cust2] ! i) ([cust1, cust2] ! j) \<noteq> 0"
      by simp
  qed
  from sort_desc_mirrors_asc[of "''name''" "[cust1, cust2]"] nn nt
  have c: "sortStep (QStr ''name'') (QStr ''desc'') [cust1, cust2]
     = rev (sortStep (QStr ''name'') (QStr ''asc'') [cust1, cust2])"
    by blast
  have d: "sortStep (QStr ''name'') (QStr ''desc'') [cust1, cust2] = [cust2, cust1]"
    by code_simp
  show ?thesis using a b n c d by (intro conjI)
qed

text \<open>
  The claim C6 as it was stated fails: \<open>cust1\<close> and \<open>cust3\<close> have the same name up to
  case, and both directions list \<open>cust1\<close> first; a customer without a last order date
  comes last in both directions.
\<close>

theorem sort_desc_not_reverse_with_ties:
  "sortStep (QStr ''name'') (QStr ''asc'') sampleStore = [cust1, cust3, cust2] \<and>
   sortStep (QStr ''name'') (QStr ''desc'') sampleStore = [cust2, cust1, cust3] \<and>
   sortStep (QStr ''name'') (QStr ''desc'') sampleStore
     \<noteq> rev (sortStep (QStr ''name'') (QStr ''asc'') sampleStore) \<and>
   sortStep (QStr ''lastOrderDate'') (QStr ''asc'') [cust2, cust1] = [cust1, cust2] \<and>
   sortStep (QStr ''lastOrderDate'') (QStr ''desc'') [cust2, cust1]
     \<noteq> rev (sortStep (QStr ''lastOrderDate'') (QStr ''asc'') [cust2, cust1])"
  by code_simp

text \<open>
  C7. A PATCH /customers request whose \<open>status\<close> is a string outside
  \<open>{active, churned, prospect}\<close> is answered with 400, whatever \<open>customerId\<close> is, and
  the store stays as it was. The answer 404 is given only when \<open>status\<close> is one of the
  three and no customer has the id; the store is unchanged then too.
\<close>

theorem patch_customers_invalid_status_rejected:
  assumes "reqMethod req = ''PATCH''"
  shows "(reqBody req = JObj kvs \<and> getMember (JObj kvs) ''status'' = JStr s \<and> s \<notin> set validStatuses
          \<longrightarrow> fst (fst (handlerCustomers req mockCustomers)) = 400
              \<and> snd (handlerCustomers req mockCustomers) = mockCustomers)
       \<and> (fst (fst (handlerCustomers req mockCustomers)) = 404
          \<longrightarrow> (\<exists>field. destructure (reqBody req) = Some field
                \<and> arrayIncludes validStatuses (field ''status'')
                \<and> (\<forall>c \<in> set mockCustomers. \<not> strictEq (idC c) (field ''customerId''))
                \<and> snd (handlerCustomers req mockCustomers) = mockCustomers))"
  using assms
  by (auto simp: handlerCustomers_def handlerPatchCustomers_def Let_def updateCustomerStatus_def
      arrayIncludes_def strictEq_def find_None_iff
      split: option.splits if_splits prod.splits bool.splits)

theorem patch_customers_invalid_status_rejected_witness:
  "getMember (JObj invalidStatusBody) ''status'' = JStr ''vip'' \<and>
   ''vip'' \<notin> set validStatuses \<and>
   fst (fst (handlerCustomers (patchRequest (JObj invalidStatusBody)) sampleStore)) = 400 \<and>
   snd (handlerCustomers (patchRequest (JObj invalidStatusBody)) sampleStore) = sampleStore \<and>
   fst (fst (handlerCustomers (patchRequest (JObj unknownCustomerBody)) sampleStore)) = 404 \<and>
   (\<exists>field. destructure (reqBody (patchRequest (JObj unknownCustomerBody))) = Some field \<and>
      arrayIncludes validStatuses (field ''status'') \<and>
      (\<forall>c \<in> set sampleStore. \<not> strictEq (idC c) (field ''customerId'')) \<and>
      snd (handlerCustomers (patchRequest (JObj unknownCustomerBody)) sampleStore) = sampleStore)"
proof -
  have m: "reqMethod (patchRequest b) = ''PATCH''" for b by (simp add: patchRequest_def)
  have b: "reqBody (patchRequest (JObj invalidStatusBody)) = JObj invalidStatusBody"
    by (simp add: patchRequest_def)
  have s: "getMember (JObj invalidStatusBody) ''status'' = JStr ''vip''" by code_simp
  have v: "''vip'' \<notin> set validStatuses" by code_simp
  have n: "fst (fst (handlerCustomers (patchRequest (JObj unknownCustomerBody)) sampleStore)) = 404"
    by code_simp
  from patch_customers_invalid_status_rejected[OF m, of "JObj invalidStatusBody" invalidStatusBody
      "''vip''" sampleStore] b s v
  have first: "fst (fst (handlerCustomers (patchRequest (JObj invalidStatusBody)) sampleStore)) = 400 \<and>
      snd (handlerCustomers (patchRequest (JObj invalidStatusBody)) sampleStore) = sampleStore"
    by blast
  from patch_customers_invalid_status_rejected[OF m, of "JObj unknownCustomerBody" _ _ sampleStore] n
  have second: "\<exists>field. destructure (reqBody (patchRequest (JObj unknownCustomerBody))) = Some field \<and>
      arrayIncludes validStatuses (field ''status'') \<and>
      (\<forall>c \<in> set sampleStore. \<not> strictEq (idC c) (field ''customerId'')) \<and>
      snd (handlerCustomers (patchRequest (JObj unknownCustomerBody)) sampleStore) = sampleStore"
    by blast
  show ?thesis using s v first n second by (intro conjI) blast+
qed

text \<open>
  C8. GET /customers/{id}/orders answers 200 for every id, never 404: \<open>getCustomerById\<close>
  always returns a customer. The body holds the orders of the customer with that id in the
  store after the request, which is the old store when the id was known, and the old store
  with the freshly created customer pushed at its end when it was not.
\<close>

theorem get_orders_never_404:
  assumes "reqMethod req = ''GET''"
  shows "fst (fst (handlerOrders getTime draw i req st)) = 200 \<and>
         fst (fst (handlerOrders getTime draw i req st)) \<noteq> 404 \<and>
         (\<exists>customer. handlerOrders getTime draw i req st =
              ((200, OrdersBody (orders customer)), snd (getCustomerById getTime draw i st)) \<and>
            idC customer = i \<and>
            find (\<lambda>c. idC c = i) (snd (handlerOrders getTime draw i req st)) = Some customer \<and>
            snd (handlerOrders getTime draw i req st) =
              (if i \<in> idC ` set st then st
               else st @ [createCustomerWithId getTime draw i
                            (Some ''Fallback Customer'') (Some ''fallback@example.com'')]))"
proof -
  obtain customer where c: "fst (getCustomerById getTime draw i st) = Some customer"
    "idC customer = i"
    "find (\<lambda>c. idC c = i) (snd (getCustomerById getTime draw i st)) = Some customer"
    using getCustomerById_found by blast
  have h: "handlerOrders getTime draw i req st =
        ((200, OrdersBody (orders customer)), snd (getCustomerById getTime draw i st))"
    using assms c(1) by (auto simp: handlerOrders_def handlerGetOrders_def split: prod.splits)
  have s: "snd (getCustomerById getTime draw i st) =
      (if i \<in> idC ` set st then st
       else st @ [createCustomerWithId getTime draw i
                    (Some ''Fallback Customer'') (Some ''fallback@example.com'')])"
    by (auto simp: getCustomerById_def Let_def find_None_iff find_Some_iff split: option.splits)
  show ?thesis using h c s by (auto simp del: One_nat_def)
qed

theorem get_orders_never_404_witness:
  "reqMethod getRequest = ''GET'' \<and>
   fst (fst (handlerOrders (\<lambda>s. 0) sampleDraw ''cust-9'' getRequest sampleStore)) = 200 \<and>
   length (snd (handlerOrders (\<lambda>s. 0) sampleDraw ''cust-9'' getRequest sampleStore)) = 4 \<and>
   handlerOrders (\<lambda>s. 0) sampleDraw ''cust-1'' getRequest sampleStore =
     ((200, OrdersBody [order1]), sampleStore)"
proof -
  have m: "reqMethod getRequest = ''GET''" by (simp add: getRequest_def)
  from get_orders_never_404[OF m, of "\<lambda>s. 0" sampleDraw "''cust-9''" sampleStore]
  have a: "fst (fst (handlerOrders (\<lambda>s. 0) sampleDraw ''cust-9'' getRequest sampleStore)) = 200"
    by blast
  have b: "length (snd (handlerOrders (\<lambda>s. 0) sampleDraw ''cust-9'' getRequest sampleStore)) = 4"
    by code_simp
  have c: "handlerOrders (\<lambda>s. 0) sampleDraw ''cust-1'' getRequest sampleStore =
     ((200, OrdersBody [order1]), sampleStore)"
    by code_simp
  show ?thesis using m a b c by (intro conjI)
qed

text \<open>
  C9. For an id that no customer has, two calls of \<open>getCustomerById\<close> with that id
  return the same customer: the first call creates it and pushes it, the second finds it
  and changes nothing, whatever faker would have drawn. After both calls the collection is
  longer by exactly one.
\<close>

theorem getCustomerById_twice_same_customer:
  assumes "i \<notin> idC ` set st"
  shows "\<exists>customer st1.
           getCustomerById getTime draw1 i st = (Some customer, st1) \<and>
           getCustomerById getTime draw2 i st1 = (Some customer, st1) \<and>
           st1 = st @ [customer] \<and> length st1 = length st + 1 \<and> idC customer = i"
proof -
  let ?c = "createCustomerWithId getTime draw1 i (Some ''Fallback Customer'') (Some ''fallback@example.com'')"
  from assms have none: "find (\<lambda>c. idC c = i) st = None"
    by (auto simp: find_None_iff)
  then have first: "getCustomerById getTime draw1 i st = (Some ?c, st @ [?c])"
    by (simp add: getCustomerById_def Let_def)
  have idc: "idC ?c = i" by (simp add: createCustomerWithId_def Let_def)
  from none have "find (\<lambda>c. idC c = i) (st @ [?c]) = Some ?c"
    using idc by (induction st) (auto split: if_splits)
  then have second: "getCustomerById getTime draw2 i (st @ [?c]) = (Some ?c, st @ [?c])"
    by (simp add: getCustomerById_def)
  show ?thesis using first second idc by simp
qed

theorem getCustomerById_twice_same_customer_witness:
  "''cust-9'' \<notin> idC ` set sampleStore \<and>
   (\<exists>customer st1.
      getCustomerById (\<lambda>s. 0) sampleDraw ''cust-9'' sampleStore = (Some customer, st1) \<and>
      getCustomerById (\<lambda>s. 0) otherDraw ''cust-9'' st1 = (Some customer, st1) \<and>
      st1 = sampleStore @ [customer] \<and> length st1 = length sampleStore + 1 \<and>
      idC customer = ''cust-9'') \<and>
   length (snd (getCustomerById (\<lambda>s. 0) otherDraw ''cust-9''
              (snd (getCustomerById (\<lambda>s. 0) sampleDraw ''cust-9'' sampleStore)))) = 4"
proof -
  have h: "''cust-9'' \<notin> idC ` set sampleStore" by code_simp
  have l: "length (snd (getCustomerById (\<lambda>s. 0) otherDraw ''cust-9''
              (snd (getCustomerById (\<lambda>s. 0) sampleDraw ''cust-9'' sampleStore)))) = 4"
    by code_simp
  show ?thesis
    using h l getCustomerById_twice_same_customer[OF h, of "\<lambda>s. 0" sampleDraw otherDraw]
    by (intro conjI)
qed

text \<open>
  C10. A PATCH /customers request whose body has \<open>customerId\<close> or \<open>status\<close> equal to
  the empty string is answered with 400 and the missing-fields message, before any
  validation or lookup; the status is never 404, and the store is unchanged.
\<close>

theorem patch_customers_empty_string_is_missing:
  assumes "reqMethod req = ''PATCH''" and "reqBody req = JObj kvs"
    and "getMember (JObj kvs) ''customerId'' = JStr [] \<or> getMember (JObj kvs) ''status'' = JStr []"
  shows "handlerCustomers req mockCustomers =
           ((400, ErrorBody ''Missing customerId or status''), mockCustomers)
         \<and> fst (fst (handlerCustomers req mockCustomers)) \<noteq> 404"
  using assms by (auto simp: handlerCustomers_def handlerPatchCustomers_def Let_def)


theorem patch_customers_empty_string_is_missing_witness:
  "getMember (JObj emptyIdBody) ''customerId'' = JStr [] \<and>
   handlerCustomers (patchRequest (JObj emptyIdBody)) sampleStore =
     ((400, ErrorBody ''Missing customerId or status''), sampleStore) \<and>
   fst (fst (handlerCustomers (patchRequest (JObj emptyIdBody)) sampleStore)) \<noteq> 404"
proof -
  have m: "reqMethod (patchRequest (JObj emptyIdBody)) = ''PATCH''"
    and b: "reqBody (patchRequest (JObj emptyIdBody)) = JObj emptyIdBody"
    by (simp_all add: patchRequest_def)
  have e: "getMember (JObj emptyIdBody) ''customerId'' = JStr []" by code_simp
  then have d: "getMember (JObj emptyIdBody) ''customerId'' = JStr [] \<or>
      getMember (JObj emptyIdBody) ''status'' = JStr []" by (rule disjI1)
  from patch_customers_empty_string_is_missing[OF m b d, of sampleStore] e
  show ?thesis by simp
qed
end
